theory Spec2Isabelle
  imports Main "HOL-Library.AList" "HOL-Library.Multiset"
begin

section \<open>Challenge 5: the Kafka-style log\<close>

text \<open>
  The repository holds three programs for the log challenge: a first single-node draft
  (handlers \<open>send\<close> and \<open>poll\<close> over a bare map, batches of two), the single-node
  program with one mutex around a map of logs (all four handlers, batches of three), and
  the distributed program whose only state is the linearizable key-value service.
  Each handler is embedded as a function from the decoded request body and the state to
  a reply (or an error) and the new state; decoding the body and sending the reply are
  the transport's part and are taken to succeed. Go's \<open>int\<close> is 64 bits wide; the offsets and
  counters below never leave that range on states the handlers can build, so they are
  integers here.
\<close>

subsection \<open>Replies and errors\<close>

datatype reply =
    send_ok int
  | poll_ok "string \<rightharpoonup> int list list"
  | commit_offsets_ok
  | list_committed_offsets_ok "string \<rightharpoonup> int"

text \<open>
  An error a handler returns: an \<open>RPCError\<close> of the service with its code, any other
  error value, or the runtime panic of an index out of range.
\<close>

datatype error = RPCError nat | NotRPCError | IndexOutOfRange

subsection \<open>The single-node program\<close>

record LogEntry =
  Offset :: int
  Message :: int

record Log =
  CommittedOffset :: int
  LogEntries :: "LogEntry list"

text \<open>
  \<open>safeLogs.logs\<close>, a Go map from key to log: the list of its bindings, one per key.
  \<open>m[k] = v\<close> is \<open>AList.update k v m\<close> (it replaces the binding of \<open>k\<close> or adds one),
  \<open>len(m)\<close> is the length of the list. The mutex makes each handler atomic.
\<close>

type_synonym logs = "(string \<times> Log) list"

definition send_mem :: "string \<Rightarrow> int \<Rightarrow> logs \<Rightarrow> (error + reply) \<times> logs" where
  "send_mem key msg ls =
     (case map_of ls key of
        Some lg \<Rightarrow>
          (if LogEntries lg = [] then (Inl IndexOutOfRange, ls)
           else
             let offset = Offset (last (LogEntries lg)) + 1 in
             (Inr (send_ok offset),
              AList.update key
                (lg\<lparr>LogEntries := LogEntries lg @ [\<lparr>Offset = offset, Message = msg\<rparr>]\<rparr>) ls))
      | None \<Rightarrow>
          let offset = (int (length ls) + 1) * 1000 in
          (Inr (send_ok offset),
           AList.update key
             \<lparr>CommittedOffset = offset,
              LogEntries = [\<lparr>Offset = offset, Message = msg\<rparr>]\<rparr> ls))"

text \<open>
  The inner loop of \<open>poll\<close>: \<open>cnt\<close> (the loop variable \<open>count\<close>) entries are already in \<open>logMessages\<close>; the loop
  leaves as soon as the third one is appended.
\<close>

fun poll_entries_mem :: "int \<Rightarrow> LogEntry list \<Rightarrow> nat \<Rightarrow> int list list \<Rightarrow> int list list" where
  "poll_entries_mem offset [] cnt logMessages = logMessages"
| "poll_entries_mem offset (entry # rest) cnt logMessages =
     (if Offset entry \<ge> offset then
        (if cnt + 1 = 3 then logMessages @ [[Offset entry, Message entry]]
         else poll_entries_mem offset rest (cnt + 1)
                (logMessages @ [[Offset entry, Message entry]]))
      else poll_entries_mem offset rest cnt logMessages)"

text \<open>
  The loop over \<open>body.Offsets\<close>. The request map is the list of its pairs in the order
  the runtime happens to visit them.
\<close>

fun poll_keys_mem ::
  "logs \<Rightarrow> (string \<times> int) list \<Rightarrow> (string \<rightharpoonup> int list list) \<Rightarrow> (string \<rightharpoonup> int list list)" where
  "poll_keys_mem ls [] messages = messages"
| "poll_keys_mem ls ((key, offset) # rest) messages =
     poll_keys_mem ls rest
       (messages(key \<mapsto>
          (case map_of ls key of
             Some lg \<Rightarrow> poll_entries_mem offset (LogEntries lg) 0 []
           | None \<Rightarrow> [])))"

definition poll_mem :: "(string \<times> int) list \<Rightarrow> logs \<Rightarrow> (error + reply) \<times> logs" where
  "poll_mem offsets ls = (Inr (poll_ok (poll_keys_mem ls offsets Map.empty)), ls)"

fun commit_keys_mem :: "(string \<times> int) list \<Rightarrow> logs \<Rightarrow> logs" where
  "commit_keys_mem [] ls = ls"
| "commit_keys_mem ((key, offset) # rest) ls =
     commit_keys_mem rest
       (case map_of ls key of
          Some lg \<Rightarrow>
            AList.update key (lg\<lparr>CommittedOffset := max (CommittedOffset lg) offset\<rparr>) ls
        | None \<Rightarrow> ls)"

definition commit_offsets_mem :: "(string \<times> int) list \<Rightarrow> logs \<Rightarrow> (error + reply) \<times> logs" where
  "commit_offsets_mem offsets ls = (Inr commit_offsets_ok, commit_keys_mem offsets ls)"

fun list_keys_mem :: "logs \<Rightarrow> string list \<Rightarrow> (string \<rightharpoonup> int) \<Rightarrow> (string \<rightharpoonup> int)" where
  "list_keys_mem ls [] offsets = offsets"
| "list_keys_mem ls (key # rest) offsets =
     list_keys_mem ls rest
       (case map_of ls key of
          Some lg \<Rightarrow> offsets(key \<mapsto> CommittedOffset lg)
        | None \<Rightarrow> offsets)"

definition list_committed_offsets_mem :: "string list \<Rightarrow> logs \<Rightarrow> (error + reply) \<times> logs" where
  "list_committed_offsets_mem keys ls =
     (Inr (list_committed_offsets_ok (list_keys_mem ls keys Map.empty)), ls)"

subsection \<open>The first single-node draft\<close>

text \<open>
  \<open>logs\<close> is a map from key to the slice of entries. In \<open>send\<close> the slice read from
  the map is extended in a local variable only, so an existing log keeps its entries;
  \<open>poll\<close> starts from the nil slice and stops at two entries.
\<close>

type_synonym draft_logs = "(string \<times> LogEntry list) list"

definition send_draft :: "string \<Rightarrow> int \<Rightarrow> draft_logs \<Rightarrow> (error + reply) \<times> draft_logs" where
  "send_draft key msg ls =
     (case map_of ls key of
        Some entries \<Rightarrow>
          (if entries = [] then (Inl IndexOutOfRange, ls)
           else (Inr (send_ok (Offset (last entries) + 1)), ls))
      | None \<Rightarrow>
          let offset = (int (length ls) + 1) * 1000 in
          (Inr (send_ok offset),
           AList.update key [\<lparr>Offset = offset, Message = msg\<rparr>] ls))"

fun poll_entries_draft :: "int \<Rightarrow> LogEntry list \<Rightarrow> nat \<Rightarrow> int list list \<Rightarrow> int list list" where
  "poll_entries_draft offset [] cnt logMessages = logMessages"
| "poll_entries_draft offset (entry # rest) cnt logMessages =
     (if Offset entry \<ge> offset then
        (if cnt + 1 = 2 then logMessages @ [[Offset entry, Message entry]]
         else poll_entries_draft offset rest (cnt + 1)
                (logMessages @ [[Offset entry, Message entry]]))
      else poll_entries_draft offset rest cnt logMessages)"

fun poll_keys_draft ::
  "draft_logs \<Rightarrow> (string \<times> int) list \<Rightarrow> (string \<rightharpoonup> int list list) \<Rightarrow> (string \<rightharpoonup> int list list)" where
  "poll_keys_draft ls [] messages = messages"
| "poll_keys_draft ls ((key, offset) # rest) messages =
     poll_keys_draft ls rest
       (messages(key \<mapsto>
          (case map_of ls key of
             Some entries \<Rightarrow> poll_entries_draft offset entries 0 []
           | None \<Rightarrow> [])))"

definition poll_draft :: "(string \<times> int) list \<Rightarrow> draft_logs \<Rightarrow> (error + reply) \<times> draft_logs" where
  "poll_draft offsets ls = (Inr (poll_ok (poll_keys_draft ls offsets Map.empty)), ls)"

subsection \<open>The key-value service\<close>

text \<open>
  Modelled from the spec: the linearizable key-value service and its client
  (\<open>maelstrom.NewLinKV\<close>, with \<open>Read\<close>, \<open>ReadInt\<close>, \<open>Write\<close> and \<open>CompareAndSwap\<close>) belong to
  a library outside the repository. Sections 2, 6 and 7 of the spec give the contract:
  a read fails with "not found" when the key is absent; a write stores the value; a
  compare-and-swap stores the new value when the current one equals the expected one,
  creates the key when it is absent and asked to, and fails with a conflict otherwise;
  and any call may fail with some other error. A call is one atomic step on the store.
  The codes of "not found" and of the conflict are those of the Maelstrom protocol,
  \<open>20\<close> and \<open>22\<close>.
  \<open>pending\<close> lists what the service does with the coming calls, one element per call:
  \<open>None\<close> serves the call, \<open>Some e\<close> fails it with \<open>e\<close> and leaves the store alone. When
  the list is used up every call is served.
\<close>

datatype val = IntVal int | OtherVal

definition KeyDoesNotExist :: nat where
  "KeyDoesNotExist = 20"

definition PreconditionFailed :: nat where
  "PreconditionFailed = 22"

record linkv =
  cells :: "string \<rightharpoonup> val"
  pending :: "error option list"

definition served :: "linkv \<Rightarrow> linkv" where
  "served kv = kv\<lparr>pending := tl (pending kv)\<rparr>"

definition fault :: "linkv \<Rightarrow> error option" where
  "fault kv = (case pending kv of [] \<Rightarrow> None | f # _ \<Rightarrow> f)"

definition Read :: "string \<Rightarrow> linkv \<Rightarrow> (error + val) \<times> linkv" where
  "Read key kv =
     (case fault kv of
        Some e \<Rightarrow> (Inl e, served kv)
      | None \<Rightarrow>
          (case cells kv key of
             None \<Rightarrow> (Inl (RPCError KeyDoesNotExist), served kv)
           | Some v \<Rightarrow> (Inr v, served kv)))"

text \<open>\<open>ReadInt\<close> returns the value as an \<open>int\<close> (zero when it is none) beside the error.\<close>

definition ReadInt :: "string \<Rightarrow> linkv \<Rightarrow> (int \<times> error option) \<times> linkv" where
  "ReadInt key kv =
     (case Read key kv of
        (Inl e, kv') \<Rightarrow> ((0, Some e), kv')
      | (Inr (IntVal i), kv') \<Rightarrow> ((i, None), kv')
      | (Inr OtherVal, kv') \<Rightarrow> ((0, None), kv'))"

definition Write :: "string \<Rightarrow> val \<Rightarrow> linkv \<Rightarrow> error option \<times> linkv" where
  "Write key v kv =
     (case fault kv of
        Some e \<Rightarrow> (Some e, served kv)
      | None \<Rightarrow> (None, served (kv\<lparr>cells := (cells kv)(key \<mapsto> v)\<rparr>)))"

definition CompareAndSwap :: "string \<Rightarrow> val \<Rightarrow> val \<Rightarrow> bool \<Rightarrow> linkv \<Rightarrow> error option \<times> linkv" where
  "CompareAndSwap key from to createIfNotExists kv =
     (case fault kv of
        Some e \<Rightarrow> (Some e, served kv)
      | None \<Rightarrow>
          (case cells kv key of
             None \<Rightarrow>
               (if createIfNotExists
                then (None, served (kv\<lparr>cells := (cells kv)(key \<mapsto> to)\<rparr>))
                else (Some (RPCError KeyDoesNotExist), served kv))
           | Some v \<Rightarrow>
               (if v = from
                then (None, served (kv\<lparr>cells := (cells kv)(key \<mapsto> to)\<rparr>))
                else (Some (RPCError PreconditionFailed), served kv))))"

subsection \<open>The distributed program\<close>

text \<open>The keys of the service, as \<open>fmt.Sprintf\<close> builds them; \<open>itoa\<close> is the verb \<open>%d\<close>.\<close>

definition digit :: "nat \<Rightarrow> char" where
  "digit d = ''0123456789'' ! d"

fun decimal :: "nat \<Rightarrow> string" where
  "decimal n = (if n < 10 then [digit n] else decimal (n div 10) @ [digit (n mod 10)])"

declare decimal.simps [simp del]

definition itoa :: "int \<Rightarrow> string" where
  "itoa i = (if i < 0 then CHR ''-'' # decimal (nat (- i)) else decimal (nat i))"

definition offsetKey :: "string \<Rightarrow> string" where
  "offsetKey key = key @ ''/highest_offset''"

definition logEntryKey :: "string \<Rightarrow> int \<Rightarrow> string" where
  "logEntryKey key offset = key @ ''/data/'' @ itoa offset"

definition committedOffsetKey :: "string \<Rightarrow> string" where
  "committedOffsetKey key = key @ ''/committed_offset''"

text \<open>
  The retry loop of \<open>send\<close>: read the marker (absent counts as \<open>-1\<close>), swap in its
  successor, and go round again whenever the swap returns an error. The result is the
  allocated offset, or the error of a failed read. The loop has no bound, so the function
  is partial: \<open>None\<close> is the loop that never leaves.
\<close>

partial_function (option) send_loop :: "string \<Rightarrow> linkv \<Rightarrow> ((error + int) \<times> linkv) option" where
  "send_loop okey kv =
     (case ReadInt okey kv of
        ((oldOffset, err), kv1) \<Rightarrow>
          (case (case err of
                   Some e \<Rightarrow> if e = RPCError KeyDoesNotExist then Inr (- 1) else Inl e
                 | None \<Rightarrow> Inr oldOffset) of
             Inl e \<Rightarrow> Some (Inl e, kv1)
           | Inr oldOffset \<Rightarrow>
               (case CompareAndSwap okey (IntVal oldOffset) (IntVal (oldOffset + 1)) True kv1 of
                  (None, kv2) \<Rightarrow> Some (Inr (oldOffset + 1), kv2)
                | (Some e, kv2) \<Rightarrow> send_loop okey kv2)))"

definition send_kv :: "string \<Rightarrow> int \<Rightarrow> linkv \<Rightarrow> ((error + reply) \<times> linkv) option" where
  "send_kv key msg kv =
     (case send_loop (offsetKey key) kv of
        None \<Rightarrow> None
      | Some (Inl e, kv1) \<Rightarrow> Some (Inl e, kv1)
      | Some (Inr offset, kv1) \<Rightarrow>
          (case Write (logEntryKey key offset) (IntVal msg) kv1 of
             (Some e, kv2) \<Rightarrow> Some (Inl e, kv2)
           | (None, kv2) \<Rightarrow> Some (Inr (send_ok offset), kv2)))"

text \<open>
  The scan of \<open>poll\<close> over the offsets \<open>i, i + 1, ..., highestOffset\<close>: an entry that
  cannot be read, or is no integer, is passed over; the third entry ends the scan.
\<close>

function poll_scan ::
  "string \<Rightarrow> int \<Rightarrow> int \<Rightarrow> nat \<Rightarrow> int list list \<Rightarrow> linkv \<Rightarrow> int list list \<times> linkv" where
  "poll_scan key i highestOffset cnt logMessages kv =
     (if i \<le> highestOffset then
        (case Read (logEntryKey key i) kv of
           (Inl e, kv1) \<Rightarrow> poll_scan key (i + 1) highestOffset cnt logMessages kv1
         | (Inr OtherVal, kv1) \<Rightarrow> poll_scan key (i + 1) highestOffset cnt logMessages kv1
         | (Inr (IntVal msg), kv1) \<Rightarrow>
             (if cnt + 1 = 3 then (logMessages @ [[i, msg]], kv1)
              else poll_scan key (i + 1) highestOffset (cnt + 1)
                     (logMessages @ [[i, msg]]) kv1))
      else (logMessages, kv))"
  by pat_completeness auto
termination
  by (relation "measure (\<lambda>(key, i, highestOffset, cnt, logMessages, kv). nat (highestOffset + 1 - i))") auto

declare poll_scan.simps [simp del]

fun poll_keys_kv ::
  "(string \<times> int) list \<Rightarrow> (string \<rightharpoonup> int list list) \<Rightarrow> linkv \<Rightarrow> (string \<rightharpoonup> int list list) \<times> linkv" where
  "poll_keys_kv [] messages kv = (messages, kv)"
| "poll_keys_kv ((key, startOffset) # rest) messages kv =
     (case ReadInt (offsetKey key) kv of
        ((highestOffset, None), kv1) \<Rightarrow>
          (case poll_scan key startOffset highestOffset 0 [] kv1 of
             (logMessages, kv2) \<Rightarrow> poll_keys_kv rest (messages(key \<mapsto> logMessages)) kv2)
      | ((highestOffset, Some e), kv1) \<Rightarrow> poll_keys_kv rest (messages(key \<mapsto> [])) kv1)"

definition poll_kv :: "(string \<times> int) list \<Rightarrow> linkv \<Rightarrow> (error + reply) \<times> linkv" where
  "poll_kv offsets kv =
     (case poll_keys_kv offsets Map.empty kv of
        (messages, kv') \<Rightarrow> (Inr (poll_ok messages), kv'))"

text \<open>
  The retry loop of \<open>commit_offsets\<close> for one key: an absent marker counts as \<open>0\<close>, and
  the swap stores the greater of the old and the new offset.
\<close>

partial_function (option) commit_loop :: "string \<Rightarrow> int \<Rightarrow> linkv \<Rightarrow> (error option \<times> linkv) option" where
  "commit_loop ckey newOffset kv =
     (case ReadInt ckey kv of
        ((oldCommittedOffset, err), kv1) \<Rightarrow>
          (case (case err of
                   Some e \<Rightarrow> if e = RPCError KeyDoesNotExist then Inr 0 else Inl e
                 | None \<Rightarrow> Inr oldCommittedOffset) of
             Inl e \<Rightarrow> Some (Some e, kv1)
           | Inr oldCommittedOffset \<Rightarrow>
               (case CompareAndSwap ckey (IntVal oldCommittedOffset)
                       (IntVal (max oldCommittedOffset newOffset)) True kv1 of
                  (None, kv2) \<Rightarrow> Some (None, kv2)
                | (Some e, kv2) \<Rightarrow> commit_loop ckey newOffset kv2)))"

fun commit_keys_kv :: "(string \<times> int) list \<Rightarrow> linkv \<Rightarrow> (error option \<times> linkv) option" where
  "commit_keys_kv [] kv = Some (None, kv)"
| "commit_keys_kv ((key, newOffset) # rest) kv =
     (case commit_loop (committedOffsetKey key) newOffset kv of
        None \<Rightarrow> None
      | Some (Some e, kv1) \<Rightarrow> Some (Some e, kv1)
      | Some (None, kv1) \<Rightarrow> commit_keys_kv rest kv1)"

definition commit_offsets_kv :: "(string \<times> int) list \<Rightarrow> linkv \<Rightarrow> ((error + reply) \<times> linkv) option" where
  "commit_offsets_kv offsets kv =
     (case commit_keys_kv offsets kv of
        None \<Rightarrow> None
      | Some (Some e, kv') \<Rightarrow> Some (Inl e, kv')
      | Some (None, kv') \<Rightarrow> Some (Inr commit_offsets_ok, kv'))"

fun list_keys_kv :: "string list \<Rightarrow> (string \<rightharpoonup> int) \<Rightarrow> linkv \<Rightarrow> (string \<rightharpoonup> int) \<times> linkv" where
  "list_keys_kv [] offsets kv = (offsets, kv)"
| "list_keys_kv (key # rest) offsets kv =
     (case ReadInt (committedOffsetKey key) kv of
        ((committedOffset, None), kv1) \<Rightarrow>
          list_keys_kv rest (offsets(key \<mapsto> committedOffset)) kv1
      | ((committedOffset, Some e), kv1) \<Rightarrow> list_keys_kv rest offsets kv1)"

definition list_committed_offsets_kv :: "string list \<Rightarrow> linkv \<Rightarrow> (error + reply) \<times> linkv" where
  "list_committed_offsets_kv keys kv =
     (case list_keys_kv keys Map.empty kv of
        (offsets, kv') \<Rightarrow> (Inr (list_committed_offsets_ok offsets), kv'))"

subsection \<open>Calls in sequence and calls in parallel\<close>

text \<open>
  A client that sends the messages \<open>msgs\<close> to one key, one call after the other, and
  keeps the replies.
\<close>

fun sends_mem :: "string \<Rightarrow> int list \<Rightarrow> logs \<Rightarrow> (error + reply) list \<times> logs" where
  "sends_mem key [] ls = ([], ls)"
| "sends_mem key (msg # msgs) ls =
     (case send_mem key msg ls of
        (r, ls1) \<Rightarrow> (case sends_mem key msgs ls1 of (rs, ls2) \<Rightarrow> (r # rs, ls2)))"

fun sends_kv :: "string \<Rightarrow> int list \<Rightarrow> linkv \<Rightarrow> ((error + reply) list \<times> linkv) option" where
  "sends_kv key [] kv = Some ([], kv)"
| "sends_kv key (msg # msgs) kv =
     (case send_kv key msg kv of
        None \<Rightarrow> None
      | Some (r, kv1) \<Rightarrow>
          (case sends_kv key msgs kv1 of
             None \<Rightarrow> None
           | Some (rs, kv2) \<Rightarrow> Some (r # rs, kv2)))"



text \<open>
  The requests of the single-node program, as \<open>node.Handle\<close> routes them by type, and
  a run of requests one after the other.
\<close>

datatype request =
    Send string int
  | Poll "(string \<times> int) list"
  | CommitOffsets "(string \<times> int) list"
  | ListCommittedOffsets "string list"

fun handle_mem :: "request \<Rightarrow> logs \<Rightarrow> (error + reply) \<times> logs" where
  "handle_mem (Send key msg) ls = send_mem key msg ls"
| "handle_mem (Poll offsets) ls = poll_mem offsets ls"
| "handle_mem (CommitOffsets offsets) ls = commit_offsets_mem offsets ls"
| "handle_mem (ListCommittedOffsets keys) ls = list_committed_offsets_mem keys ls"

fun run_mem :: "request list \<Rightarrow> logs \<Rightarrow> (error + reply) list \<times> logs" where
  "run_mem [] ls = ([], ls)"
| "run_mem (q # qs) ls =
     (case handle_mem q ls of
        (r, ls1) \<Rightarrow> (case run_mem qs ls1 of (rs, ls2) \<Rightarrow> (r # rs, ls2)))"

fun commits_key :: "string \<Rightarrow> request \<Rightarrow> bool" where
  "commits_key k (CommitOffsets offsets) = (k \<in> fst ` set offsets)"
| "commits_key k _ = False"

text \<open>
  Several \<open>send\<close> handlers of the distributed program at work on one key at once. Each
  call of the service is one atomic step, so a handler is at one of these places: about
  to read the marker, about to swap (with the value it read), about to write the entry
  (with the offset it won), or returned, with a reply or with the error of the read or
  of the write. \<open>send_step\<close> runs one handler up to its next call of the service;
  \<open>run_sends\<close> runs the handlers in the order a schedule names them.
\<close>

datatype send_at =
    Reading
  | Swapping int
  | Writing int
  | Replied int
  | ReadFailed error
  | WriteFailed int error

fun send_step :: "string \<Rightarrow> int \<Rightarrow> send_at \<Rightarrow> linkv \<Rightarrow> send_at \<times> linkv" where
  "send_step key msg Reading kv =
     (case ReadInt (offsetKey key) kv of
        ((oldOffset, None), kv1) \<Rightarrow> (Swapping oldOffset, kv1)
      | ((oldOffset, Some e), kv1) \<Rightarrow>
          (if e = RPCError KeyDoesNotExist then (Swapping (- 1), kv1) else (ReadFailed e, kv1)))"
| "send_step key msg (Swapping oldOffset) kv =
     (case CompareAndSwap (offsetKey key) (IntVal oldOffset) (IntVal (oldOffset + 1)) True kv of
        (None, kv1) \<Rightarrow> (Writing (oldOffset + 1), kv1)
      | (Some e, kv1) \<Rightarrow> (Reading, kv1))"
| "send_step key msg (Writing offset) kv =
     (case Write (logEntryKey key offset) (IntVal msg) kv of
        (None, kv1) \<Rightarrow> (Replied offset, kv1)
      | (Some e, kv1) \<Rightarrow> (WriteFailed offset e, kv1))"
| "send_step key msg (Replied offset) kv = (Replied offset, kv)"
| "send_step key msg (ReadFailed e) kv = (ReadFailed e, kv)"
| "send_step key msg (WriteFailed offset e) kv = (WriteFailed offset e, kv)"

fun run_sends :: "string \<Rightarrow> nat list \<Rightarrow> (int \<times> send_at) list \<Rightarrow> linkv \<Rightarrow> (int \<times> send_at) list \<times> linkv" where
  "run_sends key [] calls kv = (calls, kv)"
| "run_sends key (i # schedule) calls kv =
     (if i < length calls then
        (case send_step key (fst (calls ! i)) (snd (calls ! i)) kv of
           (at', kv') \<Rightarrow> run_sends key schedule (calls[i := (fst (calls ! i), at')]) kv')
      else run_sends key schedule calls kv)"

text \<open>The offset a handler has replied with, and the offset it has won, if any.\<close>

fun replied :: "send_at \<Rightarrow> int option" where
  "replied (Replied offset) = Some offset"
| "replied _ = None"

fun won :: "send_at \<Rightarrow> int option" where
  "won (Writing offset) = Some offset"
| "won (Replied offset) = Some offset"
| "won (WriteFailed offset e) = Some offset"
| "won _ = None"

text \<open>
  Several \<open>commit_offsets\<close> handlers of the distributed program at work at once. A
  handler is in the loop over its request with some pairs still to commit, about to
  read the marker of the first of them or about to swap (with the value it read), or it
  has returned, with the reply or with the error of a read. \<open>commit_step\<close> runs one
  handler up to its next call of the service (the reply after the last pair is a step of
  its own); \<open>run_commits\<close> runs the handlers in the order a schedule names them. Each
  handler is kept beside the request it serves, whose pairs stand in the order the loop
  takes them. A handler about to swap has the pair it read for at the head of its list;
  the equation for the empty list only makes \<open>commit_step\<close> total.
\<close>

datatype commit_at =
    Committing "(string \<times> int) list"
  | CommitSwapping int "(string \<times> int) list"
  | CommitReplied
  | CommitFailed error

fun commit_step :: "commit_at \<Rightarrow> linkv \<Rightarrow> commit_at \<times> linkv" where
  "commit_step (Committing []) kv = (CommitReplied, kv)"
| "commit_step (Committing ((key, newOffset) # rest)) kv =
     (case ReadInt (committedOffsetKey key) kv of
        ((oldCommittedOffset, None), kv1) \<Rightarrow>
          (CommitSwapping oldCommittedOffset ((key, newOffset) # rest), kv1)
      | ((oldCommittedOffset, Some e), kv1) \<Rightarrow>
          (if e = RPCError KeyDoesNotExist
           then (CommitSwapping 0 ((key, newOffset) # rest), kv1)
           else (CommitFailed e, kv1)))"
| "commit_step (CommitSwapping oldCommittedOffset ((key, newOffset) # rest)) kv =
     (case CompareAndSwap (committedOffsetKey key) (IntVal oldCommittedOffset)
             (IntVal (max oldCommittedOffset newOffset)) True kv of
        (None, kv1) \<Rightarrow> (Committing rest, kv1)
      | (Some e, kv1) \<Rightarrow> (Committing ((key, newOffset) # rest), kv1))"
| "commit_step (CommitSwapping oldCommittedOffset []) kv = (CommitSwapping oldCommittedOffset [], kv)"
| "commit_step CommitReplied kv = (CommitReplied, kv)"
| "commit_step (CommitFailed e) kv = (CommitFailed e, kv)"

fun run_commits ::
  "nat list \<Rightarrow> ((string \<times> int) list \<times> commit_at) list \<Rightarrow> linkv \<Rightarrow>
   ((string \<times> int) list \<times> commit_at) list \<times> linkv" where
  "run_commits [] calls kv = (calls, kv)"
| "run_commits (i # schedule) calls kv =
     (if i < length calls then
        (case commit_step (snd (calls ! i)) kv of
           (at', kv') \<Rightarrow> run_commits schedule (calls[i := (fst (calls ! i), at')]) kv')
      else run_commits schedule calls kv)"

subsection \<open>States the handlers build\<close>

text \<open>
  Every log of the single-node program has an entry, and its offsets go up; every value
  the distributed program stores is an integer.
\<close>

definition wf_log :: "Log \<Rightarrow> bool" where
  "wf_log lg \<longleftrightarrow> LogEntries lg \<noteq> [] \<and> sorted_wrt (<) (map Offset (LogEntries lg))"

definition wf_logs :: "logs \<Rightarrow> bool" where
  "wf_logs ls \<longleftrightarrow> list_all (\<lambda>(k, lg). wf_log lg) ls"

definition all_ints :: "linkv \<Rightarrow> bool" where
  "all_ints kv \<longleftrightarrow> (\<forall>k. cells kv k \<noteq> Some OtherVal)"

text \<open>
  What a scan of the offsets \<open>i, ..., h\<close> of a key may return: entries \<open>[j, m]\<close> that
  the service holds at the entry key of \<open>j\<close>, in ascending order of \<open>j\<close>.
\<close>

definition scanned :: "linkv \<Rightarrow> string \<Rightarrow> int \<Rightarrow> int \<Rightarrow> int list list \<Rightarrow> bool" where
  "scanned kv key i h new \<longleftrightarrow>
     (\<forall>e \<in> set new. \<exists>j m. e = [j, m] \<and> i \<le> j \<and> j \<le> h \<and>
        cells kv (logEntryKey key j) = Some (IntVal m)) \<and>
     sorted_wrt (\<lambda>a b. hd a < hd b) new"

text \<open>
  What the retry loops leave behind. \<open>next_offset\<close> is the offset the next allocation
  on a marker gives, \<open>committed\<close> the committed offset a marker stands for (an absent
  marker counts as \<open>0\<close> in \<open>commit_offsets\<close>). A loop that returns an offset has
  stored it in the marker; a loop that returns an error has left the store alone.
  \<open>undecimal\<close> reads a decimal numeral back.
\<close>

definition next_offset :: "linkv \<Rightarrow> string \<Rightarrow> int" where
  "next_offset kv okey = (case cells kv okey of Some (IntVal i) \<Rightarrow> i + 1 | _ \<Rightarrow> 0)"

definition send_loop_post :: "string \<Rightarrow> linkv \<Rightarrow> (error + int) \<times> linkv \<Rightarrow> bool" where
  "send_loop_post okey kv y =
     (case y of
        (Inr off, kv') \<Rightarrow>
          cells kv okey \<noteq> Some OtherVal \<and> off = next_offset kv okey \<and>
          cells kv' = (cells kv)(okey \<mapsto> IntVal off)
      | (Inl e, kv') \<Rightarrow> cells kv' = cells kv \<and> e \<noteq> RPCError KeyDoesNotExist)"

definition committed :: "linkv \<Rightarrow> string \<Rightarrow> int" where
  "committed kv ckey = (case cells kv ckey of Some (IntVal i) \<Rightarrow> i | _ \<Rightarrow> 0)"

definition commit_loop_post :: "string \<Rightarrow> int \<Rightarrow> linkv \<Rightarrow> error option \<times> linkv \<Rightarrow> bool" where
  "commit_loop_post ckey newOffset kv y =
     (case y of
        (None, kv') \<Rightarrow>
          cells kv ckey \<noteq> Some OtherVal \<and>
          cells kv' = (cells kv)(ckey \<mapsto> IntVal (max (committed kv ckey) newOffset))
      | (Some e, kv') \<Rightarrow> cells kv' = cells kv \<and> e \<noteq> RPCError KeyDoesNotExist)"

definition undecimal :: "string \<Rightarrow> nat" where
  "undecimal s = foldl (\<lambda>a c. 10 * a + (of_char c - 48)) 0 s"

text \<open>
  The offset the next \<open>send\<close> of the single-node program gives for a key, and the
  replies that carry an offset.
\<close>

definition next_offset_mem :: "logs \<Rightarrow> string \<Rightarrow> int" where
  "next_offset_mem ls key =
     (case map_of ls key of
        Some lg \<Rightarrow> Offset (last (LogEntries lg)) + 1
      | None \<Rightarrow> (int (length ls) + 1) * 1000)"

fun is_send_ok :: "error + reply \<Rightarrow> bool" where
  "is_send_ok (Inr (send_ok offset)) = True"
| "is_send_ok _ = False"

text \<open>
  The offsets the handlers have replied with, and the multiset of the offsets they have won.
\<close>

definition returned :: "(int \<times> send_at) list \<Rightarrow> int list" where
  "returned calls = List.map_filter (\<lambda>c. replied (snd c)) calls"

definition wins :: "(int \<times> send_at) list \<Rightarrow> int multiset" where
  "wins calls = (\<Sum>c\<leftarrow>calls. case won (snd c) of None \<Rightarrow> {#} | Some offset \<Rightarrow> {#offset#})"

definition sends_inv :: "string \<Rightarrow> int \<Rightarrow> (int \<times> send_at) list \<Rightarrow> linkv \<Rightarrow> bool" where
  "sends_inv key h0 calls kv \<longleftrightarrow>
     cells kv (offsetKey key) \<noteq> Some OtherVal \<and>
     h0 \<le> next_offset kv (offsetKey key) \<and>
     wins calls = mset [h0..next_offset kv (offsetKey key) - 1] \<and>
     (cells kv (offsetKey key) = None \<longrightarrow> (\<forall>c \<in> set calls. \<forall>old. snd c = Swapping old \<longrightarrow> old = - 1))"

text \<open>The result a handler that has returned hands to its caller.\<close>

fun outcome :: "send_at \<Rightarrow> (error + reply) option" where
  "outcome (Replied offset) = Some (Inr (send_ok offset))"
| "outcome (ReadFailed e) = Some (Inl e)"
| "outcome (WriteFailed offset e) = Some (Inl e)"
| "outcome _ = None"

text \<open>
  \<open>alone key msg kv at' kv'\<close>: a single handler, started on \<open>kv\<close> and run by itself
  for some number of steps, is at \<open>at'\<close> with the service at \<open>kv'\<close>.
\<close>

definition alone :: "string \<Rightarrow> int \<Rightarrow> linkv \<Rightarrow> send_at \<Rightarrow> linkv \<Rightarrow> bool" where
  "alone key msg kv at' kv' \<longleftrightarrow>
     (\<exists>n. run_sends key (replicate n 0) [(msg, Reading)] kv = ([(msg, at')], kv'))"

text \<open>
  The entries a log of the single-node program holds, and the entries the service holds
  for a key at the offsets \<open>i, ..., h\<close>, as \<open>poll\<close> would list them.
\<close>

definition entries_mem :: "logs \<Rightarrow> string \<Rightarrow> LogEntry list" where
  "entries_mem ls key = (case map_of ls key of Some lg \<Rightarrow> LogEntries lg | None \<Rightarrow> [])"

definition stored :: "linkv \<Rightarrow> string \<Rightarrow> int \<Rightarrow> int \<Rightarrow> int list list" where
  "stored kv key i h =
     concat (map (\<lambda>j. case cells kv (logEntryKey key j) of Some (IntVal m) \<Rightarrow> [[j, m]] | _ \<Rightarrow> [])
       [i..h])"

text \<open>
  The requests of the distributed program, run one after the other; a handler that
  never returns stops the run.
\<close>

fun handle_kv :: "request \<Rightarrow> linkv \<Rightarrow> ((error + reply) \<times> linkv) option" where
  "handle_kv (Send key msg) kv = send_kv key msg kv"
| "handle_kv (Poll offsets) kv = Some (poll_kv offsets kv)"
| "handle_kv (CommitOffsets offsets) kv = commit_offsets_kv offsets kv"
| "handle_kv (ListCommittedOffsets keys) kv = Some (list_committed_offsets_kv keys kv)"

fun run_kv :: "request list \<Rightarrow> linkv \<Rightarrow> ((error + reply) list \<times> linkv) option" where
  "run_kv [] kv = Some ([], kv)"
| "run_kv (q # qs) kv =
     (case handle_kv q kv of
        None \<Rightarrow> None
      | Some (r, kv1) \<Rightarrow>
          (case run_kv qs kv1 of
             None \<Rightarrow> None
           | Some (rs, kv2) \<Rightarrow> Some (r # rs, kv2)))"

text \<open>
  The offsets a request, and a run of requests, commits for a key, in the order of the
  commits; and the replies that are no error.
\<close>

fun commits_of :: "string \<Rightarrow> request \<Rightarrow> int list" where
  "commits_of k (CommitOffsets offsets) = map snd (filter (\<lambda>p. fst p = k) offsets)"
| "commits_of k _ = []"

definition committed_in :: "string \<Rightarrow> request list \<Rightarrow> int list" where
  "committed_in k qs = concat (map (commits_of k) qs)"

fun sends_to :: "string \<Rightarrow> request \<Rightarrow> bool" where
  "sends_to k (Send key msg) = (key = k)"
| "sends_to k _ = False"

fun is_reply :: "error + reply \<Rightarrow> bool" where
  "is_reply (Inr r) = True"
| "is_reply (Inl e) = False"

text \<open>The offsets among the replies of a run of calls.\<close>

fun offsets_in :: "(error + reply) list \<Rightarrow> int list" where
  "offsets_in [] = []"
| "offsets_in (Inr (send_ok offset) # rs) = offset # offsets_in rs"
| "offsets_in (r # rs) = offsets_in rs"





text \<open>The result a commit handler that has returned hands to its caller.\<close>

fun commit_outcome :: "commit_at \<Rightarrow> (error + reply) option" where
  "commit_outcome CommitReplied = Some (Inr commit_offsets_ok)"
| "commit_outcome (CommitFailed e) = Some (Inl e)"
| "commit_outcome _ = None"

text \<open>
  \<open>commit_alone offsets r kv at' kv'\<close>: a single handler of the request \<open>offsets\<close>, with
  the pairs \<open>r\<close> still to commit on \<open>kv\<close> and run by itself for some number of steps, is
  at \<open>at'\<close> with the service at \<open>kv'\<close>.
\<close>

definition commit_alone ::
  "(string \<times> int) list \<Rightarrow> (string \<times> int) list \<Rightarrow> linkv \<Rightarrow> commit_at \<Rightarrow> linkv \<Rightarrow> bool" where
  "commit_alone offsets r kv at' kv' \<longleftrightarrow>
     (\<exists>n. run_commits (replicate n 0) [(offsets, Committing r)] kv = ([(offsets, at')], kv'))"








section \<open>Properties\<close>

subsection \<open>The service and the scan of \<open>poll\<close>\<close>

lemma cells_served [simp]: "cells (served kv) = cells kv"
  by (simp add: served_def)

lemma pending_served [simp]: "pending (served kv) = tl (pending kv)"
  by (simp add: served_def)

lemma Read_cells: "Read k kv = (r, kv') \<Longrightarrow> cells kv' = cells kv \<and> pending kv' = tl (pending kv)"
  by (auto simp: Read_def split: option.splits)

lemma Read_Inr: "Read k kv = (Inr v, kv') \<Longrightarrow> cells kv k = Some v"
  by (auto simp: Read_def split: option.splits)

lemma ReadInt_cells: "ReadInt k kv = (r, kv') \<Longrightarrow> cells kv' = cells kv \<and> pending kv' = tl (pending kv)"
  by (auto simp: ReadInt_def Read_def split: option.splits val.splits)

lemma ReadInt_absent: "ReadInt k kv = ((v, None), kv') \<Longrightarrow> cells kv k \<noteq> None"
  by (auto simp: ReadInt_def Read_def split: option.splits val.splits)

lemma scanned_Nil [simp]: "scanned kv key i h []"
  by (simp add: scanned_def)

lemma scanned_weaken: "scanned kv1 key (i + 1) h new \<Longrightarrow> cells kv1 = cells kv \<Longrightarrow> scanned kv key i h new"
  by (fastforce simp: scanned_def)

lemma scanned_Cons:
  "scanned kv key (i + 1) h new \<Longrightarrow> cells kv (logEntryKey key i) = Some (IntVal m) \<Longrightarrow> i \<le> h \<Longrightarrow>
   scanned kv key i h ([i, m] # new)"
  by (fastforce simp: scanned_def)

lemma poll_scan_spec:
  "poll_scan key i h cnt acc kv = (res, kv') \<Longrightarrow> cnt < 3 \<Longrightarrow>
   \<exists>new. res = acc @ new \<and> length new \<le> 3 - cnt \<and> cells kv' = cells kv \<and> scanned kv key i h new"
proof (induction key i h cnt acc kv arbitrary: res kv' rule: poll_scan.induct)
  case (1 key i h cnt acc kv)
  show ?case
  proof (cases "i \<le> h")
    case False
    with "1.prems" show ?thesis by (simp add: poll_scan.simps)
  next
    case True
    obtain r kv1 where rd: "Read (logEntryKey key i) kv = (r, kv1)" by (cases "Read (logEntryKey key i) kv")
    from Read_cells[OF rd] have c1: "cells kv1 = cells kv" by simp
    show ?thesis
    proof (cases r)
      case (Inl e)
      with True rd "1.prems" have "poll_scan key (i + 1) h cnt acc kv1 = (res, kv')"
        by (simp add: poll_scan.simps)
      from "1.IH"(1)[OF True rd[symmetric] _ this "1.prems"(2)] Inl c1
      show ?thesis by (auto intro: scanned_weaken)
    next
      case (Inr v)
      show ?thesis
      proof (cases v)
        case OtherVal
        with Inr True rd "1.prems" have "poll_scan key (i + 1) h cnt acc kv1 = (res, kv')"
          by (simp add: poll_scan.simps)
        from "1.IH"(3)[OF True rd[symmetric] _ _ this "1.prems"(2)] Inr OtherVal c1
        show ?thesis by (auto intro: scanned_weaken)
      next
        case (IntVal m)
        with Inr rd Read_Inr have cm: "cells kv (logEntryKey key i) = Some (IntVal m)" by simp
        show ?thesis
        proof (cases "cnt + 1 = 3")
          case True
          with IntVal Inr \<open>i \<le> h\<close> rd "1.prems" have "res = acc @ [[i, m]]" "kv' = kv1"
            by (simp_all add: poll_scan.simps)
          with c1 cm \<open>i \<le> h\<close> True show ?thesis
            by (auto intro!: scanned_Cons exI[of _ "[[i, m]]"])
        next
          case False
          with IntVal Inr True rd "1.prems"
          have rec: "poll_scan key (i + 1) h (cnt + 1) (acc @ [[i, m]]) kv1 = (res, kv')"
            by (simp add: poll_scan.simps)
          from False "1.prems"(2) have lt: "cnt + 1 < 3" by simp
          from "1.IH"(2)[OF True rd[symmetric] _ _ False rec lt] Inr IntVal
          obtain new where n: "res = (acc @ [[i, m]]) @ new" "length new \<le> 3 - (cnt + 1)"
            "cells kv' = cells kv1" "scanned kv1 key (i + 1) h new" by auto
          from n(4) c1 have "scanned kv key (i + 1) h new" by (simp add: scanned_def)
          from scanned_Cons[OF this cm True] have "scanned kv key i h ([i, m] # new)" .
          with n c1 lt show ?thesis by (intro exI[of _ "[i, m] # new"]) auto
        qed
      qed
    qed
  qed
qed

subsection \<open>The keys of the service\<close>

lemma digit_cases: "d < 10 \<Longrightarrow> d \<in> {0, 1, 2, 3, 4, 5, 6, 7, 8, 9 :: nat}"
  by auto

lemma of_char_digit: "d < 10 \<Longrightarrow> (of_char (digit d) :: nat) = 48 + d"
  by (drule digit_cases) (auto simp: digit_def)

lemma digit_not_minus: "d < 10 \<Longrightarrow> digit d \<noteq> CHR ''-''"
  by (drule digit_cases) (auto simp: digit_def)

lemma undecimal_snoc: "undecimal (s @ [c]) = 10 * undecimal s + (of_char c - 48)"
  by (simp add: undecimal_def)

lemma undecimal_decimal: "undecimal (decimal n) = n"
proof (induction n rule: decimal.induct)
  case (1 n)
  show ?case
  proof (cases "n < 10")
    case True
    then show ?thesis by (subst decimal.simps) (simp add: undecimal_def of_char_digit)
  next
    case False
    with 1 have "undecimal (decimal (n div 10)) = n div 10" by simp
    with False show ?thesis
      by (subst decimal.simps) (simp add: undecimal_snoc of_char_digit)
  qed
qed

lemma decimal_inj: "decimal n = decimal m \<Longrightarrow> n = m"
  by (metis undecimal_decimal)

lemma hd_decimal: "decimal n \<noteq> [] \<and> hd (decimal n) \<noteq> CHR ''-''"
proof (induction n rule: decimal.induct)
  case (1 n)
  show ?case
  proof (cases "n < 10")
    case True
    then show ?thesis by (subst (1 2) decimal.simps) (simp add: digit_not_minus)
  next
    case False
    with 1 show ?thesis by (subst (1 2) decimal.simps) simp
  qed
qed

lemma itoa_inj: "itoa i = itoa j \<Longrightarrow> i = j"
proof -
  assume a: "itoa i = itoa j"
  have neg: "\<And>n m. CHR ''-'' # decimal n \<noteq> decimal m"
    using hd_decimal by (metis list.sel(1))
  show ?thesis
  proof (cases "i < 0"; cases "j < 0")
    assume "i < 0" "j < 0"
    with a have "nat (- i) = nat (- j)" by (auto simp: itoa_def dest: decimal_inj)
    with \<open>i < 0\<close> \<open>j < 0\<close> show ?thesis by simp
  next
    assume "i < 0" "\<not> j < 0"
    with a neg show ?thesis by (simp add: itoa_def)
  next
    assume "\<not> i < 0" "j < 0"
    with a neg[of "nat (- j)" "nat i"] show ?thesis by (simp add: itoa_def)
  next
    assume "\<not> i < 0" "\<not> j < 0"
    with a have "nat i = nat j" by (auto simp: itoa_def dest: decimal_inj)
    with \<open>\<not> i < 0\<close> \<open>\<not> j < 0\<close> show ?thesis by simp
  qed
qed

lemma logEntryKey_inj [simp]: "logEntryKey k i = logEntryKey k j \<longleftrightarrow> i = j"
  by (auto simp: logEntryKey_def dest: itoa_inj)

lemma offsetKey_inj [simp]: "offsetKey k = offsetKey k' \<longleftrightarrow> k = k'"
  by (simp add: offsetKey_def)

lemma committedOffsetKey_inj [simp]: "committedOffsetKey k = committedOffsetKey k' \<longleftrightarrow> k = k'"
  by (simp add: committedOffsetKey_def)

lemma offsetKey_neq_logEntryKey [simp]: "offsetKey k \<noteq> logEntryKey k i" "logEntryKey k i \<noteq> offsetKey k"
  by (simp_all add: offsetKey_def logEntryKey_def)

lemma committedOffsetKey_neq_logEntryKey [simp]:
  "committedOffsetKey k \<noteq> logEntryKey k i" "logEntryKey k i \<noteq> committedOffsetKey k"
  by (simp_all add: committedOffsetKey_def logEntryKey_def)

lemma offsetKey_neq_committedOffsetKey [simp]:
  "offsetKey k \<noteq> committedOffsetKey k" "committedOffsetKey k \<noteq> offsetKey k"
  by (simp_all add: committedOffsetKey_def offsetKey_def)

subsection \<open>The retry loops\<close>

lemma ReadInt_cases:
  "ReadInt k kv = ((v, err), kv') \<Longrightarrow>
   kv' = served kv \<and>
   (case err of
      Some e \<Rightarrow> (fault kv = Some e \<or> (fault kv = None \<and> cells kv k = None \<and> e = RPCError KeyDoesNotExist))
    | None \<Rightarrow> fault kv = None \<and> (cells kv k = Some (IntVal v) \<or> (cells kv k = Some OtherVal \<and> v = 0)))"
  by (auto simp: ReadInt_def Read_def split: option.splits val.splits)

lemma CompareAndSwap_cases:
  "CompareAndSwap k (IntVal a) (IntVal b) True kv = (err, kv') \<Longrightarrow>
   (case err of
      None \<Rightarrow> fault kv = None \<and> (cells kv k = None \<or> cells kv k = Some (IntVal a)) \<and>
               kv' = served (kv\<lparr>cells := (cells kv)(k \<mapsto> IntVal b)\<rparr>)
    | Some e \<Rightarrow> kv' = served kv \<and>
               (fault kv = Some e \<or> (fault kv = None \<and> cells kv k \<noteq> None \<and> cells kv k \<noteq> Some (IntVal a))))"
  by (auto simp: CompareAndSwap_def split: option.splits if_splits)

lemma send_loop_spec:
  assumes "send_loop okey kv = Some y"
  shows "send_loop_post okey kv y"
proof (rule send_loop.raw_induct[where P = send_loop_post, OF _ assms], goal_cases)
  case (1 send_loop okey kv y)
  obtain v err kv1 where rd: "ReadInt okey kv = ((v, err), kv1)"
    by (cases "ReadInt okey kv") auto
  note r = ReadInt_cases[OF rd]
  from r have c1: "cells kv1 = cells kv" by (simp add: served_def)
  show ?case
  proof (cases "\<exists>e. err = Some e \<and> e \<noteq> RPCError KeyDoesNotExist")
    case True
    then obtain e where e: "err = Some e" "e \<noteq> RPCError KeyDoesNotExist" by blast
    with rd "1"(2) have "y = (Inl e, kv1)" by simp
    with c1 e show ?thesis by (simp add: send_loop_post_def)
  next
    case False
    define old where "old = (case err of None \<Rightarrow> v | Some e \<Rightarrow> - 1)"
    obtain cerr kv2 where cas: "CompareAndSwap okey (IntVal old) (IntVal (old + 1)) True kv1 = (cerr, kv2)"
      by (cases "CompareAndSwap okey (IntVal old) (IntVal (old + 1)) True kv1")
    note c = CompareAndSwap_cases[OF cas]
    from False rd cas "1"(2)
    have body: "(case cerr of None \<Rightarrow> Some (Inr (old + 1), kv2) | Some e \<Rightarrow> send_loop okey kv2) = Some y"
      unfolding old_def by (cases err; cases cerr) auto
    show ?thesis
    proof (cases cerr)
      case None
      with body have y: "y = (Inr (old + 1), kv2)" by simp
      from None c have k2: "cells kv2 = (cells kv1)(okey \<mapsto> IntVal (old + 1))"
        and was: "cells kv1 okey = None \<or> cells kv1 okey = Some (IntVal old)"
        by (simp_all add: served_def)
      have "old + 1 = next_offset kv okey"
      proof (cases err)
        case None
        with r c1 was show ?thesis by (auto simp: old_def next_offset_def)
      next
        case (Some e)
        with was c1 show ?thesis by (auto simp: old_def next_offset_def)
      qed
      with y k2 c1 was show ?thesis by (auto simp: send_loop_post_def)
    next
      case (Some e)
      with body have rec: "send_loop okey kv2 = Some y" by simp
      from Some c have c2: "cells kv2 = cells kv1" by (simp add: served_def)
      from "1"(1)[OF rec] c1 c2 show ?thesis
        by (auto simp: send_loop_post_def next_offset_def split: prod.splits sum.splits)
    qed
  qed
qed

lemma fault_Some_pending: "fault kv = Some e \<Longrightarrow> pending kv \<noteq> []"
  by (auto simp: fault_def split: list.splits)

lemma pending_served_le: "length (pending (served kv)) \<le> length (pending kv)"
  by (simp add: served_def)

lemma pending_served_less: "pending kv \<noteq> [] \<Longrightarrow> length (pending (served kv)) < length (pending kv)"
  by (cases "pending kv") (simp_all add: served_def)

lemma send_loop_returns:
  "cells kv okey \<noteq> Some OtherVal \<Longrightarrow> \<exists>y. send_loop okey kv = Some y"
proof (induction "length (pending kv)" arbitrary: kv rule: less_induct)
  case less
  obtain v err kv1 where rd: "ReadInt okey kv = ((v, err), kv1)"
    by (cases "ReadInt okey kv") auto
  note r = ReadInt_cases[OF rd]
  from r have c1: "cells kv1 = cells kv" and k1: "kv1 = served kv" by (simp_all add: served_def)
  show ?case
  proof (cases "\<exists>e. err = Some e \<and> e \<noteq> RPCError KeyDoesNotExist")
    case True
    then obtain e where e: "err = Some e" "e \<noteq> RPCError KeyDoesNotExist" by blast
    with rd show ?thesis by (subst send_loop.simps) simp
  next
    case False
    define old where "old = (case err of None \<Rightarrow> v | Some e \<Rightarrow> - 1)"
    obtain cerr kv2 where cas: "CompareAndSwap okey (IntVal old) (IntVal (old + 1)) True kv1 = (cerr, kv2)"
      by (cases "CompareAndSwap okey (IntVal old) (IntVal (old + 1)) True kv1")
    note c = CompareAndSwap_cases[OF cas]
    have unfold: "send_loop okey kv =
      (case cerr of None \<Rightarrow> Some (Inr (old + 1), kv2) | Some e \<Rightarrow> send_loop okey kv2)"
      using False rd cas unfolding old_def
      by (subst send_loop.simps) (cases err; cases cerr; auto)
    show ?thesis
    proof (cases cerr)
      case None
      with unfold show ?thesis by simp
    next
      case (Some e)
      with c have k2: "kv2 = served kv1"
        and why: "fault kv1 = Some e \<or> (fault kv1 = None \<and> cells kv1 okey \<noteq> None \<and> cells kv1 okey \<noteq> Some (IntVal old))"
        by simp_all
      have "pending kv \<noteq> [] \<or> pending kv1 \<noteq> []"
      proof (cases "fault kv1 = Some e")
        case True
        then show ?thesis by (auto dest: fault_Some_pending)
      next
        case False
        with why have w: "cells kv okey \<noteq> None" "cells kv okey \<noteq> Some (IntVal old)"
          using c1 by simp_all
        show ?thesis
        proof (cases err)
          case None
          with r less.prems w show ?thesis by (auto simp: old_def)
        next
          case (Some e')
          with r w show ?thesis by (auto dest: fault_Some_pending)
        qed
      qed
      then have "length (pending kv2) < length (pending kv)"
        using k1 k2 pending_served_less[of kv] pending_served_less[of kv1]
          pending_served_le[of kv] pending_served_le[of kv1] by auto
      moreover have "cells kv2 okey \<noteq> Some OtherVal"
        using k2 c1 less.prems by (simp add: served_def)
      ultimately have "\<exists>y. send_loop okey kv2 = Some y" by (rule less.hyps)
      with unfold Some show ?thesis by simp
    qed
  qed
qed

lemma send_loop_calm:
  assumes "pending kv = []" "cells kv okey \<noteq> Some OtherVal"
  shows "send_loop okey kv =
     Some (Inr (next_offset kv okey), kv\<lparr>cells := (cells kv)(okey \<mapsto> IntVal (next_offset kv okey))\<rparr>)"
proof -
  from assms(1) have f: "fault kv = None" "served kv = kv" by (simp_all add: fault_def served_def)
  show ?thesis
  proof (cases "cells kv okey")
    case None
    with f show ?thesis
      by (subst send_loop.simps)
         (simp add: ReadInt_def Read_def CompareAndSwap_def next_offset_def served_def fault_def assms(1))
  next
    case (Some w)
    with assms(2) obtain i where "w = IntVal i" by (cases w) auto
    with Some f show ?thesis
      by (subst send_loop.simps)
         (simp add: ReadInt_def Read_def CompareAndSwap_def next_offset_def served_def fault_def assms(1))
  qed
qed

lemma commit_loop_spec:
  assumes "commit_loop ckey newOffset kv = Some y"
  shows "commit_loop_post ckey newOffset kv y"
proof (rule commit_loop.raw_induct[where P = commit_loop_post, OF _ assms], goal_cases)
  case (1 commit_loop ckey newOffset kv y)
  obtain v err kv1 where rd: "ReadInt ckey kv = ((v, err), kv1)"
    by (cases "ReadInt ckey kv") auto
  note r = ReadInt_cases[OF rd]
  from r have c1: "cells kv1 = cells kv" by (simp add: served_def)
  show ?case
  proof (cases "\<exists>e. err = Some e \<and> e \<noteq> RPCError KeyDoesNotExist")
    case True
    then obtain e where e: "err = Some e" "e \<noteq> RPCError KeyDoesNotExist" by blast
    with rd "1"(2) have "y = (Some e, kv1)" by simp
    with c1 e show ?thesis by (simp add: commit_loop_post_def)
  next
    case False
    define old where "old = (case err of None \<Rightarrow> v | Some e \<Rightarrow> 0)"
    obtain cerr kv2 where cas:
      "CompareAndSwap ckey (IntVal old) (IntVal (max old newOffset)) True kv1 = (cerr, kv2)"
      by (cases "CompareAndSwap ckey (IntVal old) (IntVal (max old newOffset)) True kv1")
    note c = CompareAndSwap_cases[OF cas]
    from False rd cas "1"(2)
    have body: "(case cerr of None \<Rightarrow> Some (None, kv2) | Some e \<Rightarrow> commit_loop ckey newOffset kv2) = Some y"
      unfolding old_def by (cases err; cases cerr) auto
    show ?thesis
    proof (cases cerr)
      case None
      with body have y: "y = (None, kv2)" by simp
      from None c have k2: "cells kv2 = (cells kv1)(ckey \<mapsto> IntVal (max old newOffset))"
        and was: "cells kv1 ckey = None \<or> cells kv1 ckey = Some (IntVal old)"
        by (simp_all add: served_def)
      have "max old newOffset = max (committed kv ckey) newOffset"
      proof (cases err)
        case None
        with r c1 was show ?thesis by (auto simp: old_def committed_def)
      next
        case (Some e)
        with was c1 show ?thesis by (auto simp: old_def committed_def)
      qed
      with y k2 c1 was show ?thesis by (auto simp: commit_loop_post_def)
    next
      case (Some e)
      with body have rec: "commit_loop ckey newOffset kv2 = Some y" by simp
      from Some c have c2: "cells kv2 = cells kv1" by (simp add: served_def)
      from "1"(1)[OF rec] c1 c2 show ?thesis
        by (auto simp: commit_loop_post_def committed_def split: prod.splits option.splits)
    qed
  qed
qed

lemma commit_loop_returns:
  "cells kv ckey \<noteq> Some OtherVal \<Longrightarrow> \<exists>y. commit_loop ckey newOffset kv = Some y"
proof (induction "length (pending kv)" arbitrary: kv rule: less_induct)
  case less
  obtain v err kv1 where rd: "ReadInt ckey kv = ((v, err), kv1)"
    by (cases "ReadInt ckey kv") auto
  note r = ReadInt_cases[OF rd]
  from r have c1: "cells kv1 = cells kv" and k1: "kv1 = served kv" by (simp_all add: served_def)
  show ?case
  proof (cases "\<exists>e. err = Some e \<and> e \<noteq> RPCError KeyDoesNotExist")
    case True
    then obtain e where e: "err = Some e" "e \<noteq> RPCError KeyDoesNotExist" by blast
    with rd show ?thesis by (subst commit_loop.simps) simp
  next
    case False
    define old where "old = (case err of None \<Rightarrow> v | Some e \<Rightarrow> 0)"
    obtain cerr kv2 where cas:
      "CompareAndSwap ckey (IntVal old) (IntVal (max old newOffset)) True kv1 = (cerr, kv2)"
      by (cases "CompareAndSwap ckey (IntVal old) (IntVal (max old newOffset)) True kv1")
    note c = CompareAndSwap_cases[OF cas]
    have unfold: "commit_loop ckey newOffset kv =
      (case cerr of None \<Rightarrow> Some (None, kv2) | Some e \<Rightarrow> commit_loop ckey newOffset kv2)"
      using False rd cas unfolding old_def
      by (subst commit_loop.simps) (cases err; cases cerr; auto)
    show ?thesis
    proof (cases cerr)
      case None
      with unfold show ?thesis by simp
    next
      case (Some e)
      with c have k2: "kv2 = served kv1"
        and why: "fault kv1 = Some e \<or> (fault kv1 = None \<and> cells kv1 ckey \<noteq> None \<and> cells kv1 ckey \<noteq> Some (IntVal old))"
        by simp_all
      have "pending kv \<noteq> [] \<or> pending kv1 \<noteq> []"
      proof (cases "fault kv1 = Some e")
        case True
        then show ?thesis by (auto dest: fault_Some_pending)
      next
        case False
        with why have w: "cells kv ckey \<noteq> None" "cells kv ckey \<noteq> Some (IntVal old)"
          using c1 by simp_all
        show ?thesis
        proof (cases err)
          case None
          with r less.prems w show ?thesis by (auto simp: old_def)
        next
          case (Some e')
          with r w show ?thesis by (auto dest: fault_Some_pending)
        qed
      qed
      then have "length (pending kv2) < length (pending kv)"
        using k1 k2 pending_served_less[of kv] pending_served_less[of kv1]
          pending_served_le[of kv] pending_served_le[of kv1] by auto
      moreover have "cells kv2 ckey \<noteq> Some OtherVal"
        using k2 c1 less.prems by (simp add: served_def)
      ultimately have "\<exists>y. commit_loop ckey newOffset kv2 = Some y" by (rule less.hyps)
      with unfold Some show ?thesis by simp
    qed
  qed
qed


subsection \<open>The batch of \<open>poll\<close>\<close>

lemma poll_entries_mem_take:
  "cnt < 3 \<Longrightarrow>
   poll_entries_mem offset es cnt acc =
     acc @ take (3 - cnt) (map (\<lambda>e. [Offset e, Message e]) (filter (\<lambda>e. offset \<le> Offset e) es))"
proof (induction es arbitrary: cnt acc)
  case Nil
  then show ?case by simp
next
  case (Cons e es)
  show ?case
  proof (cases "offset \<le> Offset e")
    case False
    then show ?thesis using Cons by simp
  next
    case True
    show ?thesis
    proof (cases "cnt + 1 = 3")
      case True
      with \<open>offset \<le> Offset e\<close> show ?thesis by simp
    next
      case False
      with Cons.prems have lt: "cnt + 1 < 3" by simp
      have "3 - cnt = Suc (3 - (cnt + 1))" using lt by simp
      with Cons.IH[OF lt] True False show ?thesis by simp
    qed
  qed
qed

lemma poll_entries_draft_take:
  "cnt < 2 \<Longrightarrow>
   poll_entries_draft offset es cnt acc =
     acc @ take (2 - cnt) (map (\<lambda>e. [Offset e, Message e]) (filter (\<lambda>e. offset \<le> Offset e) es))"
proof (induction es arbitrary: cnt acc)
  case Nil
  then show ?case by simp
next
  case (Cons e es)
  show ?case
  proof (cases "offset \<le> Offset e")
    case False
    then show ?thesis using Cons by simp
  next
    case True
    show ?thesis
    proof (cases "cnt + 1 = 2")
      case True
      with \<open>offset \<le> Offset e\<close> show ?thesis by simp
    next
      case False
      with Cons.prems have lt: "cnt + 1 < 2" by simp
      have "2 - cnt = Suc (2 - (cnt + 1))" using lt by simp
      with Cons.IH[OF lt] True False show ?thesis by simp
    qed
  qed
qed

lemma poll_keys_mem_spec:
  "(k \<notin> fst ` set offsets \<longrightarrow> poll_keys_mem ls offsets messages k = messages k) \<and>
   (k \<in> fst ` set offsets \<longrightarrow>
      (\<exists>es. poll_keys_mem ls offsets messages k = Some es \<and> length es \<le> 3 \<and>
         (map_of ls k = None \<longrightarrow> es = [])))"
proof (induction offsets arbitrary: messages)
  case Nil
  show ?case by simp
next
  case (Cons p offsets)
  obtain key off where p: "p = (key, off)" by (cases p)
  let ?m = "messages(key \<mapsto> case map_of ls key of None \<Rightarrow> [] | Some lg \<Rightarrow> poll_entries_mem off (LogEntries lg) 0 [])"
  have step: "poll_keys_mem ls (p # offsets) messages k = poll_keys_mem ls offsets ?m k"
    by (simp add: p)
  show ?case
  proof (cases "k \<in> fst ` set offsets")
    case True
    then have "k \<in> fst ` set (p # offsets)" by simp
    moreover from True Cons.IH[of ?m]
    have "\<exists>es. poll_keys_mem ls (p # offsets) messages k = Some es \<and> length es \<le> 3 \<and>
         (map_of ls k = None \<longrightarrow> es = [])"
      unfolding step by blast
    ultimately show ?thesis by blast
  next
    case False
    with Cons.IH[of ?m] have eq: "poll_keys_mem ls (p # offsets) messages k = ?m k"
      unfolding step by blast
    show ?thesis
    proof (cases "k = key")
      case True
      with eq p show ?thesis by (auto simp: poll_entries_mem_take split: option.splits)
    next
      case False
      with eq p \<open>k \<notin> fst ` set offsets\<close> show ?thesis by simp
    qed
  qed
qed

lemma poll_keys_draft_spec:
  "(k \<notin> fst ` set offsets \<longrightarrow> poll_keys_draft ls offsets messages k = messages k) \<and>
   (k \<in> fst ` set offsets \<longrightarrow>
      (\<exists>es. poll_keys_draft ls offsets messages k = Some es \<and> length es \<le> 2 \<and>
         (map_of ls k = None \<longrightarrow> es = [])))"
proof (induction offsets arbitrary: messages)
  case Nil
  show ?case by simp
next
  case (Cons p offsets)
  obtain key off where p: "p = (key, off)" by (cases p)
  let ?m = "messages(key \<mapsto> case map_of ls key of None \<Rightarrow> [] | Some entries \<Rightarrow> poll_entries_draft off entries 0 [])"
  have step: "poll_keys_draft ls (p # offsets) messages k = poll_keys_draft ls offsets ?m k"
    by (simp add: p)
  show ?case
  proof (cases "k \<in> fst ` set offsets")
    case True
    then have "k \<in> fst ` set (p # offsets)" by simp
    moreover from True Cons.IH[of ?m]
    have "\<exists>es. poll_keys_draft ls (p # offsets) messages k = Some es \<and> length es \<le> 2 \<and>
         (map_of ls k = None \<longrightarrow> es = [])"
      unfolding step by blast
    ultimately show ?thesis by blast
  next
    case False
    with Cons.IH[of ?m] have eq: "poll_keys_draft ls (p # offsets) messages k = ?m k"
      unfolding step by blast
    show ?thesis
    proof (cases "k = key")
      case True
      with eq p show ?thesis by (auto simp: poll_entries_draft_take split: option.splits)
    next
      case False
      with eq p \<open>k \<notin> fst ` set offsets\<close> show ?thesis by simp
    qed
  qed
qed

lemma poll_keys_kv_spec:
  "poll_keys_kv offsets messages kv = (res, kv') \<Longrightarrow>
   cells kv' = cells kv \<and>
   (k \<notin> fst ` set offsets \<longrightarrow> res k = messages k) \<and>
   (k \<in> fst ` set offsets \<longrightarrow>
      (\<exists>es. res k = Some es \<and> length es \<le> 3 \<and> (cells kv (offsetKey k) = None \<longrightarrow> es = [])))"
proof (induction offsets arbitrary: messages kv)
  case Nil
  then show ?case by simp
next
  case (Cons p offsets)
  obtain key off where p: "p = (key, off)" by (cases p)
  obtain h err kv1 where rd: "ReadInt (offsetKey key) kv = ((h, err), kv1)"
    by (cases "ReadInt (offsetKey key) kv") auto
  from ReadInt_cells[OF rd] have c1: "cells kv1 = cells kv" by simp
  obtain lm kv2 where sc: "poll_scan key off h 0 [] kv1 = (lm, kv2)"
    by (cases "poll_scan key off h 0 [] kv1")
  from poll_scan_spec[OF sc] have c2: "cells kv2 = cells kv1" and len: "length lm \<le> 3" by auto
  define es0 where "es0 = (case err of None \<Rightarrow> lm | Some e \<Rightarrow> [])"
  define kv3 where "kv3 = (case err of None \<Rightarrow> kv2 | Some e \<Rightarrow> kv1)"
  have step: "poll_keys_kv offsets (messages(key \<mapsto> es0)) kv3 = (res, kv')"
    using Cons.prems rd sc by (simp add: p es0_def kv3_def split: option.splits)
  have c3: "cells kv3 = cells kv" using c1 c2 by (simp add: kv3_def split: option.splits)
  have len0: "length es0 \<le> 3" using len by (simp add: es0_def split: option.splits)
  have abs0: "cells kv (offsetKey key) = None \<Longrightarrow> es0 = []"
    using ReadInt_absent[of "offsetKey key" kv h kv1] rd by (cases err) (auto simp: es0_def)
  from Cons.IH[OF step] c3
  have ih: "cells kv' = cells kv"
    "k \<notin> fst ` set offsets \<Longrightarrow> res k = (messages(key \<mapsto> es0)) k"
    "k \<in> fst ` set offsets \<Longrightarrow>
      \<exists>es. res k = Some es \<and> length es \<le> 3 \<and> (cells kv (offsetKey k) = None \<longrightarrow> es = [])"
    by auto
  show ?case
  proof (cases "k \<in> fst ` set offsets")
    case True
    with ih show ?thesis by (simp add: p)
  next
    case False
    show ?thesis
    proof (cases "k = key")
      case True
      with False ih(1,2) len0 abs0 show ?thesis by (simp add: p)
    next
      case False
      with \<open>k \<notin> fst ` set offsets\<close> ih(1,2) show ?thesis by (simp add: p)
    qed
  qed
qed

text \<open>
  Claim C4. A \<open>poll\<close> reply never holds more than three entries for a key, however many
  entries the log has from the requested offset on. This holds for the distributed
  program (whatever calls of the service fail), for the single-node program, and for the
  first draft, whose batches end at two entries.
\<close>

theorem poll_at_most_three:
  "(\<exists>msgs. poll_kv offsets kv = (Inr (poll_ok msgs), snd (poll_kv offsets kv)) \<and>
      (\<forall>key es. msgs key = Some es \<longrightarrow> length es \<le> 3)) \<and>
   (\<exists>msgs. poll_mem offsets ls = (Inr (poll_ok msgs), ls) \<and>
      (\<forall>key es. msgs key = Some es \<longrightarrow> length es \<le> 3)) \<and>
   (\<exists>msgs. poll_draft offsets ds = (Inr (poll_ok msgs), ds) \<and>
      (\<forall>key es. msgs key = Some es \<longrightarrow> length es \<le> 3))"
proof (intro conjI)
  obtain res kv' where r: "poll_keys_kv offsets Map.empty kv = (res, kv')"
    by (cases "poll_keys_kv offsets Map.empty kv")
  have "\<forall>key es. res key = Some es \<longrightarrow> length es \<le> 3"
  proof (intro allI impI)
    fix key es assume a: "res key = Some es"
    from poll_keys_kv_spec[OF r, of key] a show "length es \<le> 3"
      by (cases "key \<in> fst ` set offsets") auto
  qed
  with r show "\<exists>msgs. poll_kv offsets kv = (Inr (poll_ok msgs), snd (poll_kv offsets kv)) \<and>
      (\<forall>key es. msgs key = Some es \<longrightarrow> length es \<le> 3)"
    by (simp add: poll_kv_def)
next
  have "\<forall>key es. poll_keys_mem ls offsets Map.empty key = Some es \<longrightarrow> length es \<le> 3"
  proof (intro allI impI)
    fix key es assume a: "poll_keys_mem ls offsets Map.empty key = Some es"
    from poll_keys_mem_spec[of key offsets ls Map.empty] a show "length es \<le> 3"
      by (cases "key \<in> fst ` set offsets") auto
  qed
  then show "\<exists>msgs. poll_mem offsets ls = (Inr (poll_ok msgs), ls) \<and>
      (\<forall>key es. msgs key = Some es \<longrightarrow> length es \<le> 3)"
    by (simp add: poll_mem_def)
next
  have "\<forall>key es. poll_keys_draft ds offsets Map.empty key = Some es \<longrightarrow> length es \<le> 3"
  proof (intro allI impI)
    fix key es assume a: "poll_keys_draft ds offsets Map.empty key = Some es"
    from poll_keys_draft_spec[of key offsets ds Map.empty] a show "length es \<le> 3"
      by (cases "key \<in> fst ` set offsets") auto
  qed
  then show "\<exists>msgs. poll_draft offsets ds = (Inr (poll_ok msgs), ds) \<and>
      (\<forall>key es. msgs key = Some es \<longrightarrow> length es \<le> 3)"
    by (simp add: poll_draft_def)
qed

theorem poll_at_most_three_witness:
  "fst (poll_kv [(''x'', 1000)]
     \<lparr>cells = [''x/highest_offset'' \<mapsto> IntVal 1003, ''x/data/1000'' \<mapsto> IntVal 10,
               ''x/data/1001'' \<mapsto> IntVal 11, ''x/data/1002'' \<mapsto> IntVal 12,
               ''x/data/1003'' \<mapsto> IntVal 13],
      pending = []\<rparr>) = Inr (poll_ok [''x'' \<mapsto> [[1000, 10], [1001, 11], [1002, 12]]]) \<and>
   fst (poll_mem [(''x'', 1000)]
     [(''x'', \<lparr>CommittedOffset = 1000, LogEntries =
        [\<lparr>Offset = 1000, Message = 10\<rparr>, \<lparr>Offset = 1001, Message = 11\<rparr>,
         \<lparr>Offset = 1002, Message = 12\<rparr>, \<lparr>Offset = 1003, Message = 13\<rparr>]\<rparr>)]) =
     Inr (poll_ok [''x'' \<mapsto> [[1000, 10], [1001, 11], [1002, 12]]]) \<and>
   fst (poll_draft [(''x'', 1000)]
     [(''x'', [\<lparr>Offset = 1000, Message = 10\<rparr>, \<lparr>Offset = 1001, Message = 11\<rparr>,
              \<lparr>Offset = 1002, Message = 12\<rparr>])]) =
     Inr (poll_ok [''x'' \<mapsto> [[1000, 10], [1001, 11]]]) \<and>
   length [[1000, 10], [1001, 11], [1002, 12 :: int]] \<le> 3"
  using poll_at_most_three[of "[(''x'', 1000)]"
      "\<lparr>cells = [''x/highest_offset'' \<mapsto> IntVal 1003, ''x/data/1000'' \<mapsto> IntVal 10,
               ''x/data/1001'' \<mapsto> IntVal 11, ''x/data/1002'' \<mapsto> IntVal 12,
               ''x/data/1003'' \<mapsto> IntVal 13],
      pending = []\<rparr>"
      "[(''x'', \<lparr>CommittedOffset = 1000, LogEntries =
        [\<lparr>Offset = 1000, Message = 10\<rparr>, \<lparr>Offset = 1001, Message = 11\<rparr>,
         \<lparr>Offset = 1002, Message = 12\<rparr>, \<lparr>Offset = 1003, Message = 13\<rparr>]\<rparr>)]"
      "[(''x'', [\<lparr>Offset = 1000, Message = 10\<rparr>, \<lparr>Offset = 1001, Message = 11\<rparr>,
              \<lparr>Offset = 1002, Message = 12\<rparr>])]"]
  by (simp add: poll_kv_def poll_mem_def poll_draft_def ReadInt_def Read_def fault_def
      served_def offsetKey_def poll_scan.simps logEntryKey_def itoa_def decimal.simps digit_def)

text \<open>
  Claim C9. A key of a \<open>poll\<close> request that has never been appended to (in the
  distributed program: its highest-offset marker is absent) is still a key of the reply,
  with an empty sequence of entries. The draft builds that sequence from the nil slice
  and the other two programs from an empty one; both have no entries.
\<close>

theorem poll_unknown_key_empty:
  assumes asked: "key \<in> fst ` set offsets"
  shows "(cells kv (offsetKey key) = None \<longrightarrow>
           (\<exists>msgs. fst (poll_kv offsets kv) = Inr (poll_ok msgs) \<and> msgs key = Some [])) \<and>
         (map_of ds key = None \<longrightarrow>
           (\<exists>msgs. fst (poll_draft offsets ds) = Inr (poll_ok msgs) \<and> msgs key = Some [])) \<and>
         (map_of ls key = None \<longrightarrow>
           (\<exists>msgs. fst (poll_mem offsets ls) = Inr (poll_ok msgs) \<and> msgs key = Some []))"
proof (intro conjI impI)
  assume absent: "cells kv (offsetKey key) = None"
  obtain res kv' where r: "poll_keys_kv offsets Map.empty kv = (res, kv')"
    by (cases "poll_keys_kv offsets Map.empty kv")
  from poll_keys_kv_spec[OF r, of key] asked absent have "res key = Some []" by auto
  with r show "\<exists>msgs. fst (poll_kv offsets kv) = Inr (poll_ok msgs) \<and> msgs key = Some []"
    by (simp add: poll_kv_def)
next
  assume "map_of ds key = None"
  with poll_keys_draft_spec[of key offsets ds Map.empty] asked
  show "\<exists>msgs. fst (poll_draft offsets ds) = Inr (poll_ok msgs) \<and> msgs key = Some []"
    by (auto simp: poll_draft_def)
next
  assume "map_of ls key = None"
  with poll_keys_mem_spec[of key offsets ls Map.empty] asked
  show "\<exists>msgs. fst (poll_mem offsets ls) = Inr (poll_ok msgs) \<and> msgs key = Some []"
    by (auto simp: poll_mem_def)
qed

theorem poll_unknown_key_empty_witness:
  "fst (poll_kv [(''x'', 0), (''y'', 0)]
     \<lparr>cells = [''x/highest_offset'' \<mapsto> IntVal 0, ''x/data/0'' \<mapsto> IntVal 10], pending = []\<rparr>) =
     Inr (poll_ok [''x'' \<mapsto> [[0, 10]], ''y'' \<mapsto> []]) \<and>
   fst (poll_draft [(''x'', 0), (''y'', 0)] [(''x'', [\<lparr>Offset = 1000, Message = 10\<rparr>])]) =
     Inr (poll_ok [''x'' \<mapsto> [[1000, 10]], ''y'' \<mapsto> []]) \<and>
   fst (poll_mem [(''x'', 0), (''y'', 0)]
     [(''x'', \<lparr>CommittedOffset = 1000, LogEntries = [\<lparr>Offset = 1000, Message = 10\<rparr>]\<rparr>)]) =
     Inr (poll_ok [''x'' \<mapsto> [[1000, 10]], ''y'' \<mapsto> []])"
  using poll_unknown_key_empty[of "''y''" "[(''x'', 0), (''y'', 0)]"
      "\<lparr>cells = [''x/highest_offset'' \<mapsto> IntVal 0, ''x/data/0'' \<mapsto> IntVal 10], pending = []\<rparr>"
      "[(''x'', [\<lparr>Offset = 1000, Message = 10\<rparr>])]"
      "[(''x'', \<lparr>CommittedOffset = 1000, LogEntries = [\<lparr>Offset = 1000, Message = 10\<rparr>]\<rparr>)]"]
  by (simp add: poll_kv_def poll_mem_def poll_draft_def ReadInt_def Read_def fault_def
      served_def offsetKey_def poll_scan.simps logEntryKey_def itoa_def decimal.simps digit_def)

subsection \<open>The single-node program: committed offsets\<close>

lemma list_keys_mem_skip:
  "k \<notin> set keys \<Longrightarrow> list_keys_mem ls keys offsets k = offsets k"
  by (induction keys arbitrary: offsets) (auto split: option.splits)

lemma list_keys_mem_present:
  "map_of ls k = Some lg \<Longrightarrow> k \<in> set keys \<Longrightarrow>
   list_keys_mem ls keys offsets k = Some (CommittedOffset lg)"
proof (induction keys arbitrary: offsets)
  case Nil
  then show ?case by simp
next
  case (Cons a keys)
  show ?case
  proof (cases "k \<in> set keys")
    case True
    with Cons show ?thesis by simp
  next
    case False
    with Cons.prems have "a = k" by simp
    with False Cons.prems(1) show ?thesis
      by (simp add: list_keys_mem_skip)
  qed
qed

lemma commit_keys_mem_other:
  "k \<notin> fst ` set offsets \<Longrightarrow> map_of (commit_keys_mem offsets ls) k = map_of ls k"
  by (induction offsets arbitrary: ls) (auto simp: update_conv' split: option.splits)

lemma send_mem_committed:
  "map_of ls k = Some lg \<Longrightarrow> send_mem key msg ls = (r, ls') \<Longrightarrow>
   \<exists>lg'. map_of ls' k = Some lg' \<and> CommittedOffset lg' = CommittedOffset lg"
  by (cases "key = k") (auto simp: send_mem_def Let_def update_conv' split: option.splits if_splits)

lemma handle_mem_committed:
  "map_of ls k = Some lg \<Longrightarrow> \<not> commits_key k q \<Longrightarrow> handle_mem q ls = (r, ls') \<Longrightarrow>
   \<exists>lg'. map_of ls' k = Some lg' \<and> CommittedOffset lg' = CommittedOffset lg"
proof (cases q)
  case (Send key msg)
  assume "map_of ls k = Some lg" "handle_mem q ls = (r, ls')"
  with Send show ?thesis using send_mem_committed by simp
next
  case (Poll offs)
  assume "map_of ls k = Some lg" "handle_mem q ls = (r, ls')"
  with Poll show ?thesis by (auto simp: poll_mem_def)
next
  case (CommitOffsets offs)
  assume "map_of ls k = Some lg" "handle_mem q ls = (r, ls')" "\<not> commits_key k q"
  with CommitOffsets show ?thesis by (auto simp: commit_offsets_mem_def commit_keys_mem_other)
next
  case (ListCommittedOffsets keys)
  assume "map_of ls k = Some lg" "handle_mem q ls = (r, ls')"
  with ListCommittedOffsets show ?thesis by (auto simp: list_committed_offsets_mem_def)
qed

lemma run_mem_committed:
  "map_of ls k = Some lg \<Longrightarrow> list_all (\<lambda>q. \<not> commits_key k q) qs \<Longrightarrow> run_mem qs ls = (rs, ls') \<Longrightarrow>
   \<exists>lg'. map_of ls' k = Some lg' \<and> CommittedOffset lg' = CommittedOffset lg"
proof (induction qs arbitrary: ls lg rs ls')
  case Nil
  then show ?case by simp
next
  case (Cons q qs)
  obtain r ls1 where h: "handle_mem q ls = (r, ls1)" by (cases "handle_mem q ls")
  obtain rs1 ls2 where t: "run_mem qs ls1 = (rs1, ls2)" by (cases "run_mem qs ls1")
  from Cons.prems(3) h t have e: "ls' = ls2" by simp
  from Cons.prems(2) have nq: "\<not> commits_key k q" and nqs: "list_all (\<lambda>q. \<not> commits_key k q) qs" by simp_all
  from handle_mem_committed[OF Cons.prems(1) nq h]
  obtain lg1 where l1: "map_of ls1 k = Some lg1" "CommittedOffset lg1 = CommittedOffset lg" by blast
  from Cons.IH[OF l1(1) nqs t] l1(2) e show ?case by simp
qed

text \<open>
  Claim C10. In the single-node program the first \<open>send\<close> for a fresh key creates the
  log with its committed offset set to the first allocated offset,
  \<open>(len(logs) + 1) * 1000\<close>. Whatever requests follow, as long as none of them commits
  an offset for that key, \<open>list_committed_offsets\<close> asked about the key reports it with
  that first offset; the key is not left out.
\<close>

theorem first_send_sets_committed_offset:
  assumes fresh: "map_of ls key = None"
    and sent: "send_mem key msg ls = (r, ls1)"
    and quiet: "list_all (\<lambda>q. \<not> commits_key key q) qs"
    and ran: "run_mem qs ls1 = (rs, ls2)"
    and asked: "key \<in> set keys"
  shows "r = Inr (send_ok ((int (length ls) + 1) * 1000)) \<and>
         (\<exists>offsets. list_committed_offsets_mem keys ls2 = (Inr (list_committed_offsets_ok offsets), ls2) \<and>
            offsets key = Some ((int (length ls) + 1) * 1000))"
proof -
  let ?first = "(int (length ls) + 1) * 1000"
  from fresh sent have r: "r = Inr (send_ok ?first)"
    and l1: "map_of ls1 key = Some \<lparr>CommittedOffset = ?first, LogEntries = [\<lparr>Offset = ?first, Message = msg\<rparr>]\<rparr>"
    by (auto simp: send_mem_def Let_def update_conv')
  from run_mem_committed[OF l1 quiet ran]
  obtain lg' where l2: "map_of ls2 key = Some lg'" "CommittedOffset lg' = ?first" by auto
  from list_keys_mem_present[OF l2(1) asked] l2(2) r show ?thesis
    by (simp add: list_committed_offsets_mem_def)
qed

theorem first_send_sets_committed_offset_witness:
  "send_mem ''x'' 10 [] = (Inr (send_ok 1000), [(''x'', \<lparr>CommittedOffset = 1000, LogEntries = [\<lparr>Offset = 1000, Message = 10\<rparr>]\<rparr>)]) \<and>
   fst (list_committed_offsets_mem [''x'']
     (snd (run_mem [Send ''x'' 20, Poll [(''x'', 0)], CommitOffsets [(''y'', 7)]] (snd (send_mem ''x'' 10 []))))) =
   Inr (list_committed_offsets_ok [''x'' \<mapsto> 1000])"
  using first_send_sets_committed_offset[of "[]" "''x''" 10 "fst (send_mem ''x'' 10 [])" "snd (send_mem ''x'' 10 [])"
      "[Send ''x'' 20, Poll [(''x'', 0)], CommitOffsets [(''y'', 7)]]"
      "fst (run_mem [Send ''x'' 20, Poll [(''x'', 0)], CommitOffsets [(''y'', 7)]] (snd (send_mem ''x'' 10 [])))"
      "snd (run_mem [Send ''x'' 20, Poll [(''x'', 0)], CommitOffsets [(''y'', 7)]] (snd (send_mem ''x'' 10 [])))"
      "[''x'']"]
  by (simp add: send_mem_def poll_mem_def commit_offsets_mem_def list_committed_offsets_mem_def Let_def)

subsection \<open>Calls of send in sequence\<close>

lemma list_all_update:
  "list_all P ls \<Longrightarrow> P (k, v) \<Longrightarrow> list_all P (AList.update k v ls)"
  by (induction ls) auto

lemma wf_logs_lookup: "wf_logs ls \<Longrightarrow> map_of ls k = Some lg \<Longrightarrow> wf_log lg"
  by (auto simp: wf_logs_def list_all_iff dest: map_of_SomeD)

lemma sorted_le_last:
  "sorted_wrt (<) (xs :: int list) \<Longrightarrow> x \<in> set xs \<Longrightarrow> x \<le> last xs"
  by (induction xs) (auto simp: less_imp_le)

lemma wf_log_snoc:
  "wf_log lg \<Longrightarrow>
   wf_log (lg\<lparr>LogEntries := LogEntries lg @ [\<lparr>Offset = Offset (last (LogEntries lg)) + 1, Message = msg\<rparr>]\<rparr>)"
proof -
  assume w: "wf_log lg"
  then have ne: "LogEntries lg \<noteq> []" and so: "sorted_wrt (<) (map Offset (LogEntries lg))"
    by (simp_all add: wf_log_def)
  have "\<forall>x \<in> set (map Offset (LogEntries lg)). x \<le> Offset (last (LogEntries lg))"
    using sorted_le_last[OF so] ne by (simp add: last_map)
  with ne so show ?thesis by (auto simp: wf_log_def sorted_wrt_append)
qed

lemma send_mem_wf:
  assumes "wf_logs ls"
  shows "\<exists>ls'. send_mem key msg ls = (Inr (send_ok (next_offset_mem ls key)), ls') \<and> wf_logs ls' \<and>
           next_offset_mem ls' key = next_offset_mem ls key + 1"
proof (cases "map_of ls key")
  case None
  let ?o = "(int (length ls) + 1) * 1000"
  let ?lg = "\<lparr>CommittedOffset = ?o, LogEntries = [\<lparr>Offset = ?o, Message = msg\<rparr>]\<rparr>"
  have "wf_logs (AList.update key ?lg ls)"
    using assms unfolding wf_logs_def by (intro list_all_update) (simp_all add: wf_log_def)
  with None show ?thesis
    by (simp add: send_mem_def next_offset_mem_def Let_def update_conv')
next
  case (Some lg)
  with assms have w: "wf_log lg" by (rule wf_logs_lookup)
  then have ne: "LogEntries lg \<noteq> []" by (simp add: wf_log_def)
  let ?lg = "lg\<lparr>LogEntries := LogEntries lg @ [\<lparr>Offset = Offset (last (LogEntries lg)) + 1, Message = msg\<rparr>]\<rparr>"
  have "wf_logs (AList.update key ?lg ls)"
    using assms wf_log_snoc[OF w] unfolding wf_logs_def by (intro list_all_update) simp_all
  with Some ne show ?thesis
    by (simp add: send_mem_def next_offset_mem_def Let_def update_conv')
qed

lemma upt_shift: "map f [0..<Suc n] = f 0 # map (\<lambda>i. f (Suc i)) [0..<n]"
  by (simp add: upt_conv_Cons map_Suc_upt[symmetric] del: upt_Suc)

lemma sends_mem_consecutive:
  "wf_logs ls \<Longrightarrow>
   fst (sends_mem key msgs ls) =
     map (\<lambda>i. Inr (send_ok (next_offset_mem ls key + int i))) [0..<length msgs] \<and>
   wf_logs (snd (sends_mem key msgs ls))"
proof (induction msgs arbitrary: ls)
  case Nil
  then show ?case by simp
next
  case (Cons msg msgs)
  from send_mem_wf[OF Cons.prems, of key msg] obtain ls1 where
    s: "send_mem key msg ls = (Inr (send_ok (next_offset_mem ls key)), ls1)" and w: "wf_logs ls1"
    and n: "next_offset_mem ls1 key = next_offset_mem ls key + 1" by blast
  obtain rs1 ls2 where t: "sends_mem key msgs ls1 = (rs1, ls2)" by (cases "sends_mem key msgs ls1")
  from Cons.IH[OF w] n s t show ?case
    by (simp add: upt_shift add.assoc del: upt_Suc)
qed

lemma send_kv_spec:
  assumes "send_kv key msg kv = Some (r, kv')"
  shows "(case r of
            Inr rep \<Rightarrow> rep = send_ok (next_offset kv (offsetKey key)) \<and>
              cells kv' = (cells kv)(offsetKey key \<mapsto> IntVal (next_offset kv (offsetKey key)),
                                     logEntryKey key (next_offset kv (offsetKey key)) \<mapsto> IntVal msg)
          | Inl e \<Rightarrow> cells kv' = cells kv \<or>
              cells kv' = (cells kv)(offsetKey key \<mapsto> IntVal (next_offset kv (offsetKey key))))"
proof -
  from assms obtain a kv1 where l: "send_loop (offsetKey key) kv = Some (a, kv1)"
    by (auto simp: send_kv_def split: option.splits)
  note p = send_loop_spec[OF l, unfolded send_loop_post_def]
  show ?thesis
  proof (cases a)
    case (Inl e)
    with l assms p show ?thesis by (auto simp: send_kv_def)
  next
    case (Inr off)
    with p have off: "off = next_offset kv (offsetKey key)"
      and c1: "cells kv1 = (cells kv)(offsetKey key \<mapsto> IntVal off)" by simp_all
    obtain werr kv2 where w: "Write (logEntryKey key off) (IntVal msg) kv1 = (werr, kv2)"
      by (cases "Write (logEntryKey key off) (IntVal msg) kv1")
    show ?thesis
    proof (cases werr)
      case None
      with w have "cells kv2 = (cells kv1)(logEntryKey key off \<mapsto> IntVal msg)"
        by (auto simp: Write_def split: option.splits)
      with None w l Inr assms off c1 show ?thesis by (auto simp: send_kv_def)
    next
      case (Some e)
      with w have "cells kv2 = cells kv1" by (auto simp: Write_def split: option.splits)
      with Some w l Inr assms off c1 show ?thesis by (auto simp: send_kv_def)
    qed
  qed
qed

lemma next_offset_after_send:
  "cells kv' = (cells kv)(offsetKey key \<mapsto> IntVal off, logEntryKey key off \<mapsto> IntVal msg) \<Longrightarrow>
   next_offset kv' (offsetKey key) = off + 1"
  by (simp add: next_offset_def)

lemma sends_kv_consecutive:
  "sends_kv key msgs kv = Some (rs, kv') \<Longrightarrow> list_all is_send_ok rs \<Longrightarrow>
   rs = map (\<lambda>i. Inr (send_ok (next_offset kv (offsetKey key) + int i))) [0..<length msgs]"
proof (induction msgs arbitrary: kv rs)
  case Nil
  then show ?case by simp
next
  case (Cons msg msgs)
  from Cons.prems(1) obtain r kv1 rs1 where
    s: "send_kv key msg kv = Some (r, kv1)" and t: "sends_kv key msgs kv1 = Some (rs1, kv')"
    and rs: "rs = r # rs1"
    by (auto split: option.splits)
  from Cons.prems(2) rs have ok: "is_send_ok r" "list_all is_send_ok rs1" by simp_all
  from ok(1) obtain off where r: "r = Inr (send_ok off)" by (cases r rule: is_send_ok.cases) auto
  from send_kv_spec[OF s] r have off: "off = next_offset kv (offsetKey key)"
    and c: "cells kv1 = (cells kv)(offsetKey key \<mapsto> IntVal off, logEntryKey key off \<mapsto> IntVal msg)"
    by simp_all
  from next_offset_after_send[OF c] have n: "next_offset kv1 (offsetKey key) = off + 1" .
  from Cons.IH[OF t ok(2)] n off r rs show ?case
    by (simp add: upt_shift del: upt_Suc)
qed

lemma send_kv_calm:
  assumes "pending kv = []" "cells kv (offsetKey key) \<noteq> Some OtherVal"
  shows "send_kv key msg kv =
     Some (Inr (send_ok (next_offset kv (offsetKey key))),
           kv\<lparr>cells := (cells kv)(offsetKey key \<mapsto> IntVal (next_offset kv (offsetKey key)),
                                  logEntryKey key (next_offset kv (offsetKey key)) \<mapsto> IntVal msg)\<rparr>)"
  using assms by (simp add: send_kv_def send_loop_calm Write_def fault_def served_def)

lemma sends_kv_calm:
  "pending kv = [] \<Longrightarrow> cells kv (offsetKey key) \<noteq> Some OtherVal \<Longrightarrow>
   \<exists>kv'. sends_kv key msgs kv =
     Some (map (\<lambda>i. Inr (send_ok (next_offset kv (offsetKey key) + int i))) [0..<length msgs], kv')"
proof (induction msgs arbitrary: kv)
  case Nil
  then show ?case by simp
next
  case (Cons msg msgs)
  let ?off = "next_offset kv (offsetKey key)"
  let ?kv1 = "kv\<lparr>cells := (cells kv)(offsetKey key \<mapsto> IntVal ?off, logEntryKey key ?off \<mapsto> IntVal msg)\<rparr>"
  have s: "send_kv key msg kv = Some (Inr (send_ok ?off), ?kv1)"
    using Cons.prems by (rule send_kv_calm)
  have p: "pending ?kv1 = []" "cells ?kv1 (offsetKey key) \<noteq> Some OtherVal"
    using Cons.prems by simp_all
  have n: "next_offset ?kv1 (offsetKey key) = ?off + 1" by (simp add: next_offset_def)
  from Cons.IH[OF p] obtain kv' where
    "sends_kv key msgs ?kv1 = Some (map (\<lambda>i. Inr (send_ok (next_offset ?kv1 (offsetKey key) + int i))) [0..<length msgs], kv')"
    by blast
  with s n show ?case by (simp add: upt_shift del: upt_Suc)
qed

lemma send_kv_returns:
  assumes "cells kv (offsetKey key) \<noteq> Some OtherVal"
  shows "\<exists>r kv'. send_kv key msg kv = Some (r, kv')"
proof -
  from send_loop_returns[OF assms] obtain a kv1 where "send_loop (offsetKey key) kv = Some (a, kv1)"
    by auto
  then show ?thesis
    by (cases a; cases "Write (logEntryKey key (projr a)) (IntVal msg) kv1")
       (auto simp: send_kv_def split: option.splits)
qed

lemma sends_kv_returns:
  "cells kv (offsetKey key) \<noteq> Some OtherVal \<Longrightarrow> \<exists>rs kv'. sends_kv key msgs kv = Some (rs, kv')"
proof (induction msgs arbitrary: kv)
  case Nil
  then show ?case by simp
next
  case (Cons msg msgs)
  from send_kv_returns[OF Cons.prems] obtain r kv1 where s: "send_kv key msg kv = Some (r, kv1)"
    by blast
  from send_kv_spec[OF s] Cons.prems have "cells kv1 (offsetKey key) \<noteq> Some OtherVal"
    by (cases r) auto
  from Cons.IH[OF this] s show ?case by auto
qed

lemma send_kv_next:
  assumes "send_kv key msg kv = Some (r, kv')"
  shows "next_offset kv (offsetKey key) \<le> next_offset kv' (offsetKey key) \<and>
         offsets_in [r] = (if is_send_ok r then [next_offset kv (offsetKey key)] else []) \<and>
         (is_send_ok r \<longrightarrow> next_offset kv' (offsetKey key) = next_offset kv (offsetKey key) + 1)"
proof (cases r)
  case (Inl e)
  with send_kv_spec[OF assms] show ?thesis by (auto simp: next_offset_def)
next
  case (Inr rep)
  with send_kv_spec[OF assms] show ?thesis by (auto simp: next_offset_def)
qed

lemma offsets_in_Cons: "offsets_in (r # rs) = offsets_in [r] @ offsets_in rs"
  by (cases "(r # rs)" rule: offsets_in.cases) auto

lemma sends_kv_increasing:
  "sends_kv key msgs kv = Some (rs, kv') \<Longrightarrow>
   sorted_wrt (<) (offsets_in rs) \<and> (\<forall>x \<in> set (offsets_in rs). next_offset kv (offsetKey key) \<le> x)"
proof (induction msgs arbitrary: kv rs)
  case Nil
  then show ?case by simp
next
  case (Cons msg msgs)
  from Cons.prems obtain r kv1 rs1 where
    s: "send_kv key msg kv = Some (r, kv1)" and t: "sends_kv key msgs kv1 = Some (rs1, kv')"
    and rs: "rs = r # rs1"
    by (auto split: option.splits)
  note n = send_kv_next[OF s]
  note ih = Cons.IH[OF t]
  have e: "offsets_in rs = offsets_in [r] @ offsets_in rs1"
    unfolding rs by (rule offsets_in_Cons)
  show ?case
  proof (cases "is_send_ok r")
    case True
    with n ih show ?thesis unfolding e by (fastforce simp: sorted_wrt_append)
  next
    case False
    with n ih show ?thesis unfolding e by fastforce
  qed
qed

text \<open>
  Claim C2, as amended. Calls of \<open>send\<close> on one key, one after the other, return
  offsets that go up by one: the first is \<open>next_offset_mem\<close> (for a fresh key
  \<open>(len(logs) + 1) * 1000\<close>) in the single-node program and \<open>next_offset\<close> (for a
  fresh key \<open>0\<close>) in the distributed program. In the single-node program this holds
  for every sequence of calls. In the distributed program the calls always return, the
  offsets they reply with always go up, and the offsets are consecutive when every call
  of the sequence replies with an offset, as it does when no call of the service fails. The claim as stated does not hold there: a
  \<open>send\<close> whose entry write fails has won its offset and returns an error, so the next
  offset returned is two more than the one before.
\<close>

theorem sequential_sends_consecutive:
  "(wf_logs ls \<longrightarrow>
      fst (sends_mem key msgs ls) =
        map (\<lambda>i. Inr (send_ok (next_offset_mem ls key + int i))) [0..<length msgs]) \<and>
   (map_of ls key = None \<longrightarrow> next_offset_mem ls key = (int (length ls) + 1) * 1000) \<and>
   (cells kv (offsetKey key) \<noteq> Some OtherVal \<longrightarrow> sends_kv key msgs kv \<noteq> None) \<and>
   (sends_kv key msgs kv = Some (rs, kv') \<and> list_all is_send_ok rs \<longrightarrow>
      rs = map (\<lambda>i. Inr (send_ok (next_offset kv (offsetKey key) + int i))) [0..<length msgs]) \<and>
   (pending kv = [] \<and> cells kv (offsetKey key) \<noteq> Some OtherVal \<longrightarrow>
      map_option fst (sends_kv key msgs kv) =
        Some (map (\<lambda>i. Inr (send_ok (next_offset kv (offsetKey key) + int i))) [0..<length msgs])) \<and>
   (cells kv (offsetKey key) = None \<longrightarrow> next_offset kv (offsetKey key) = 0) \<and>
   (sends_kv key msgs kv = Some (rs, kv') \<longrightarrow> sorted_wrt (<) (offsets_in rs))"
proof (intro conjI impI)
  assume "wf_logs ls"
  then show "fst (sends_mem key msgs ls) =
        map (\<lambda>i. Inr (send_ok (next_offset_mem ls key + int i))) [0..<length msgs]"
    by (simp add: sends_mem_consecutive)
next
  assume "map_of ls key = None"
  then show "next_offset_mem ls key = (int (length ls) + 1) * 1000"
    by (simp add: next_offset_mem_def)
next
  assume "cells kv (offsetKey key) \<noteq> Some OtherVal"
  from sends_kv_returns[OF this, of msgs] show "sends_kv key msgs kv \<noteq> None" by auto
next
  assume "sends_kv key msgs kv = Some (rs, kv') \<and> list_all is_send_ok rs"
  then show "rs = map (\<lambda>i. Inr (send_ok (next_offset kv (offsetKey key) + int i))) [0..<length msgs]"
    using sends_kv_consecutive by blast
next
  assume "pending kv = [] \<and> cells kv (offsetKey key) \<noteq> Some OtherVal"
  with sends_kv_calm[of kv key msgs]
  show "map_option fst (sends_kv key msgs kv) =
        Some (map (\<lambda>i. Inr (send_ok (next_offset kv (offsetKey key) + int i))) [0..<length msgs])"
    by auto
next
  assume "cells kv (offsetKey key) = None"
  then show "next_offset kv (offsetKey key) = 0" by (simp add: next_offset_def)
next
  assume "sends_kv key msgs kv = Some (rs, kv')"
  then show "sorted_wrt (<) (offsets_in rs)" by (simp add: sends_kv_increasing)
qed

theorem sequential_sends_consecutive_witness:
  "fst (sends_mem ''x'' [10, 20, 30] []) = [Inr (send_ok 1000), Inr (send_ok 1001), Inr (send_ok 1002)] \<and>
   map_option fst (sends_kv ''x'' [10, 20, 30] \<lparr>cells = Map.empty, pending = []\<rparr>) =
     Some [Inr (send_ok 0), Inr (send_ok 1), Inr (send_ok 2)]"
  using sequential_sends_consecutive[of "[]" "''x''" "[10, 20, 30]" "\<lparr>cells = Map.empty, pending = []\<rparr>"
      "[Inr (send_ok 0), Inr (send_ok 1), Inr (send_ok 2)]"
      "snd (the (sends_kv ''x'' [10, 20, 30] \<lparr>cells = Map.empty, pending = []\<rparr>))"]
  by (simp add: wf_logs_def next_offset_mem_def next_offset_def offsetKey_def upt_conv_Cons)

theorem sequential_sends_gap_counterexample:
  "map_option fst (sends_kv ''x'' [10, 20, 30]
     \<lparr>cells = Map.empty, pending = [None, None, None, None, None, Some (RPCError 11)]\<rparr>) =
   Some [Inr (send_ok 0), Inl (RPCError 11), Inr (send_ok 2)]"
  by (simp add: send_kv_def send_loop.simps ReadInt_def Read_def CompareAndSwap_def Write_def fault_def served_def
      offsetKey_def logEntryKey_def itoa_def decimal.simps digit_def KeyDoesNotExist_def)

subsection \<open>Calls of send in parallel\<close>

lemma sum_list_update_mset:
  "i < length xs \<Longrightarrow>
   (\<Sum>x\<leftarrow>xs[i := y]. g x) + g (xs ! i) = (\<Sum>x\<leftarrow>xs. g x) + (g y :: 'b multiset)"
proof (induction xs arbitrary: i)
  case Nil
  then show ?case by simp
next
  case (Cons x xs)
  show ?case
  proof (cases i)
    case 0
    then show ?thesis by (simp add: ac_simps)
  next
    case (Suc j)
    with Cons.prems have "j < length xs" by simp
    from Cons.IH[OF this] Suc show ?thesis by (simp add: ac_simps)
  qed
qed

lemma wins_update_same:
  "i < length calls \<Longrightarrow> won at' = won (snd (calls ! i)) \<Longrightarrow>
   wins (calls[i := (m, at')]) = wins calls"
  using sum_list_update_mset[of i calls "\<lambda>c. case won (snd c) of None \<Rightarrow> {#} | Some offset \<Rightarrow> {#offset#}" "(m, at')"]
  by (simp add: wins_def)

lemma wins_update_new:
  "i < length calls \<Longrightarrow> won (snd (calls ! i)) = None \<Longrightarrow> won at' = Some offset \<Longrightarrow>
   wins (calls[i := (m, at')]) = wins calls + {#offset#}"
  using sum_list_update_mset[of i calls "\<lambda>c. case won (snd c) of None \<Rightarrow> {#} | Some offset \<Rightarrow> {#offset#}" "(m, at')"]
  by (simp add: wins_def)

lemma mset_upto_snoc: "h0 \<le> h \<Longrightarrow> mset [h0..h] = mset [h0..h - 1] + {#h#}"
  by (simp add: upto_rec2)

lemma Write_cases:
  "Write k v kv = (err, kv') \<Longrightarrow>
   (case err of
      None \<Rightarrow> kv' = served (kv\<lparr>cells := (cells kv)(k \<mapsto> v)\<rparr>)
    | Some e \<Rightarrow> kv' = served kv)"
  by (auto simp: Write_def split: option.splits)

lemma sends_inv_step:
  assumes inv: "sends_inv key h0 calls kv"
    and i: "i < length calls"
    and step: "send_step key (fst (calls ! i)) (snd (calls ! i)) kv = (at', kv')"
  shows "sends_inv key h0 (calls[i := (fst (calls ! i), at')]) kv'"
proof -
  let ?ok = "offsetKey key"
  let ?m = "fst (calls ! i)"
  let ?calls' = "calls[i := (?m, at')]"
  from inv have ok: "cells kv ?ok \<noteq> Some OtherVal"
    and le: "h0 \<le> next_offset kv ?ok"
    and w: "wins calls = mset [h0..next_offset kv ?ok - 1]"
    and sw: "cells kv ?ok = None \<Longrightarrow> (\<forall>c \<in> set calls. \<forall>old. snd c = Swapping old \<longrightarrow> old = - 1)"
    by (simp_all add: sends_inv_def)
  have in_set: "\<And>c. c \<in> set ?calls' \<Longrightarrow> c = (?m, at') \<or> c \<in> set calls"
    using set_update_subset_insert[of calls i "(?m, at')"] by auto
  have ci: "calls ! i \<in> set calls" using i by simp
  show ?thesis
  proof (cases "snd (calls ! i)")
    case Reading
    obtain v err kv1 where rd: "ReadInt ?ok kv = ((v, err), kv1)"
      by (cases "ReadInt ?ok kv") auto
    note r = ReadInt_cases[OF rd]
    from r have c1: "cells kv1 = cells kv" by simp
    from step Reading rd have at': "at' = (case err of None \<Rightarrow> Swapping v
        | Some e \<Rightarrow> if e = RPCError KeyDoesNotExist then Swapping (- 1) else ReadFailed e)"
      and kv': "kv' = kv1"
      by (auto split: option.splits if_splits)
    have won': "won at' = won (snd (calls ! i))"
      using at' Reading by (auto split: option.splits)
    have n: "next_offset kv' ?ok = next_offset kv ?ok" using kv' c1 by (simp add: next_offset_def)
    have "cells kv' ?ok = None \<Longrightarrow> (\<forall>c \<in> set ?calls'. \<forall>old. snd c = Swapping old \<longrightarrow> old = - 1)"
    proof (intro ballI allI impI)
      fix c old assume a: "cells kv' ?ok = None" "c \<in> set ?calls'" "snd c = Swapping old"
      from in_set[OF a(2)] show "old = - 1"
      proof
        assume "c = (?m, at')"
        with a(3) at' r a(1) kv' c1 show ?thesis by (auto split: option.splits if_splits)
      next
        assume "c \<in> set calls"
        with sw a kv' c1 show ?thesis by auto
      qed
    qed
    with ok le w n kv' c1 wins_update_same[OF i won'] show ?thesis
      by (simp add: sends_inv_def)
  next
    case (Swapping old)
    obtain cerr kv1 where cas: "CompareAndSwap ?ok (IntVal old) (IntVal (old + 1)) True kv = (cerr, kv1)"
      by (cases "CompareAndSwap ?ok (IntVal old) (IntVal (old + 1)) True kv")
    note c = CompareAndSwap_cases[OF cas]
    show ?thesis
    proof (cases cerr)
      case (Some e)
      with step Swapping cas have at': "at' = Reading" and kv': "kv' = kv1" by simp_all
      from Some c have c1: "cells kv1 = cells kv" by simp
      have won': "won at' = won (snd (calls ! i))" using at' Swapping by simp
      have n: "next_offset kv' ?ok = next_offset kv ?ok" using kv' c1 by (simp add: next_offset_def)
      have "cells kv' ?ok = None \<Longrightarrow> (\<forall>c \<in> set ?calls'. \<forall>old. snd c = Swapping old \<longrightarrow> old = - 1)"
      proof (intro ballI allI impI)
        fix c old' assume a: "cells kv' ?ok = None" "c \<in> set ?calls'" "snd c = Swapping old'"
        from in_set[OF a(2)] show "old' = - 1"
        proof
          assume "c = (?m, at')"
          with a(3) at' show ?thesis by simp
        next
          assume "c \<in> set calls"
          with sw a kv' c1 show ?thesis by auto
        qed
      qed
      with ok le w n kv' c1 wins_update_same[OF i won'] show ?thesis
        by (simp add: sends_inv_def)
    next
      case None
      with step Swapping cas have at': "at' = Writing (old + 1)" and kv': "kv' = kv1" by simp_all
      from None c have c1: "cells kv1 = (cells kv)(?ok \<mapsto> IntVal (old + 1))"
        and was: "cells kv ?ok = None \<or> cells kv ?ok = Some (IntVal old)" by simp_all
      have old: "old + 1 = next_offset kv ?ok"
      proof (cases "cells kv ?ok")
        case None
        with sw ci Swapping have "old = - 1" by auto
        with None show ?thesis by (simp add: next_offset_def)
      next
        case (Some x)
        with was show ?thesis by (simp add: next_offset_def)
      qed
      have n: "next_offset kv' ?ok = next_offset kv ?ok + 1"
        using kv' c1 old by (simp add: next_offset_def)
      have "wins ?calls' = wins calls + {#next_offset kv ?ok#}"
        using wins_update_new[OF i, of at' "old + 1" ?m] Swapping at' old by simp
      with w le have w': "wins ?calls' = mset [h0..next_offset kv' ?ok - 1]"
        using mset_upto_snoc[of h0 "next_offset kv ?ok"] n by simp
      from kv' c1 have present: "cells kv' ?ok \<noteq> None" "cells kv' ?ok \<noteq> Some OtherVal" by simp_all
      with w' le n show ?thesis by (auto simp: sends_inv_def)
    qed
  next
    case (Writing off)
    obtain werr kv1 where wr: "Write (logEntryKey key off) (IntVal ?m) kv = (werr, kv1)"
      by (cases "Write (logEntryKey key off) (IntVal ?m) kv")
    from step Writing wr have at': "at' = (case werr of None \<Rightarrow> Replied off | Some e \<Rightarrow> WriteFailed off e)"
      and kv': "kv' = kv1" by (auto split: option.splits)
    from Write_cases[OF wr] have c1: "cells kv1 ?ok = cells kv ?ok"
      by (cases werr) simp_all
    have won': "won at' = won (snd (calls ! i))" using at' Writing by (cases werr) simp_all
    have n: "next_offset kv' ?ok = next_offset kv ?ok" using kv' c1 by (simp add: next_offset_def)
    have "cells kv' ?ok = None \<Longrightarrow> (\<forall>c \<in> set ?calls'. \<forall>old. snd c = Swapping old \<longrightarrow> old = - 1)"
    proof (intro ballI allI impI)
      fix c old' assume a: "cells kv' ?ok = None" "c \<in> set ?calls'" "snd c = Swapping old'"
      from in_set[OF a(2)] show "old' = - 1"
      proof
        assume "c = (?m, at')"
        with a(3) at' show ?thesis by (cases werr) simp_all
      next
        assume "c \<in> set calls"
        with sw a kv' c1 show ?thesis by auto
      qed
    qed
    with ok le w n kv' c1 wins_update_same[OF i won'] show ?thesis
      by (simp add: sends_inv_def)
  next
    case (Replied off)
    with step have "at' = snd (calls ! i)" "kv' = kv" by simp_all
    then have "?calls' = calls" by simp
    with inv \<open>kv' = kv\<close> show ?thesis by simp
  next
    case (ReadFailed e)
    with step have "at' = snd (calls ! i)" "kv' = kv" by simp_all
    then have "?calls' = calls" by simp
    with inv \<open>kv' = kv\<close> show ?thesis by simp
  next
    case (WriteFailed off e)
    with step have "at' = snd (calls ! i)" "kv' = kv" by simp_all
    then have "?calls' = calls" by simp
    with inv \<open>kv' = kv\<close> show ?thesis by simp
  qed
qed

lemma sends_inv_run:
  "sends_inv key h0 calls kv \<Longrightarrow> run_sends key schedule calls kv = (calls', kv') \<Longrightarrow>
   sends_inv key h0 calls' kv' \<and> map fst calls' = map fst calls"
proof (induction schedule arbitrary: calls kv)
  case Nil
  then show ?case by simp
next
  case (Cons i schedule)
  show ?case
  proof (cases "i < length calls")
    case False
    with Cons show ?thesis by simp
  next
    case True
    obtain at1 kv1 where st: "send_step key (fst (calls ! i)) (snd (calls ! i)) kv = (at1, kv1)"
      by (cases "send_step key (fst (calls ! i)) (snd (calls ! i)) kv")
    from sends_inv_step[OF Cons.prems(1) True st]
    have inv1: "sends_inv key h0 (calls[i := (fst (calls ! i), at1)]) kv1" .
    from Cons.prems(2) True st
    have run: "run_sends key schedule (calls[i := (fst (calls ! i), at1)]) kv1 = (calls', kv')" by simp
    have "map fst (calls[i := (fst (calls ! i), at1)]) = map fst calls"
      using True by (simp add: map_update list_update_same_conv)
    with Cons.IH[OF inv1 run] show ?thesis by simp
  qed
qed

lemma sends_inv_init:
  "cells kv (offsetKey key) \<noteq> Some OtherVal \<Longrightarrow>
   sends_inv key (next_offset kv (offsetKey key)) (map (\<lambda>m. (m, Reading)) msgs) kv"
proof -
  have "wins (map (\<lambda>m. (m, Reading)) msgs) = {#}"
    by (induction msgs) (simp_all add: wins_def)
  then show "cells kv (offsetKey key) \<noteq> Some OtherVal \<Longrightarrow> ?thesis"
    by (auto simp: sends_inv_def)
qed

lemma returned_Cons:
  "returned (c # calls) = (case replied (snd c) of None \<Rightarrow> returned calls | Some offset \<Rightarrow> offset # returned calls)"
  by (simp add: returned_def map_filter_simps split: option.splits)

lemma wins_Cons:
  "wins (c # calls) = (case won (snd c) of None \<Rightarrow> {#} | Some offset \<Rightarrow> {#offset#}) + wins calls"
  by (simp add: wins_def)

lemma replied_won: "replied a = Some offset \<Longrightarrow> won a = Some offset"
  by (cases a) simp_all

lemma returned_subset_wins: "mset (returned calls) \<subseteq># wins calls"
proof (induction calls)
  case Nil
  show ?case by (simp add: returned_def wins_def map_filter_simps)
next
  case (Cons c calls)
  show ?case
  proof (cases "replied (snd c)")
    case None
    with Cons show ?thesis
      by (simp add: returned_Cons wins_Cons subset_mset.add_increasing)
  next
    case (Some offset)
    with Cons replied_won[OF Some] show ?thesis
      by (simp add: returned_Cons wins_Cons)
  qed
qed

lemma returned_eq_wins:
  "list_all (\<lambda>c. won (snd c) = replied (snd c)) calls \<Longrightarrow> mset (returned calls) = wins calls"
proof (induction calls)
  case Nil
  show ?case by (simp add: returned_def wins_def map_filter_simps)
next
  case (Cons c calls)
  then show ?case
    by (cases "replied (snd c)") (simp_all add: returned_Cons wins_Cons)
qed

lemma returned_all_replied:
  "list_all (\<lambda>c. replied (snd c) \<noteq> None) calls \<Longrightarrow>
   length (returned calls) = length calls \<and> list_all (\<lambda>c. won (snd c) = replied (snd c)) calls"
proof (induction calls)
  case Nil
  show ?case by (simp add: returned_def map_filter_simps)
next
  case (Cons c calls)
  then show ?case
    by (cases "replied (snd c)") (auto simp: returned_Cons dest: replied_won)
qed

lemma distinct_sub_mset:
  assumes "mset xs \<subseteq># mset ys" "distinct ys"
  shows "distinct xs"
  unfolding distinct_count_atmost_1
proof
  fix a
  have "count (mset xs) a \<le> count (mset ys) a" using assms(1) by (rule mset_subset_eq_count)
  also have "\<dots> \<le> 1" using assms(2) by (simp add: distinct_count_atmost_1)
  finally have le: "count (mset xs) a \<le> 1" .
  show "count (mset xs) a = (if a \<in> set xs then 1 else 0)"
  proof (cases "a \<in> set xs")
    case True
    then have "count (mset xs) a \<noteq> 0" by simp
    with le have "count (mset xs) a = 1" by arith
    with True show ?thesis by simp
  next
    case False
    then show ?thesis by simp
  qed
qed

text \<open>
  Claim C1, as amended. Any number of \<open>send\<close> handlers run on one key at once, their
  calls of the service interleaved in any order and failing in any way. The offsets they
  reply with never repeat, and they lie between the first free offset before the run and
  the first free offset after it. They fill that range without a gap when every offset
  won has been replied, and they are exactly the first \<open>n\<close> free offsets when all
  \<open>n\<close> handlers have replied. A handler whose entry write fails, or that has not yet
  written, holds an offset that no reply carries; so the claim as stated, which has the
  replies gap-free in every run, does not hold.
\<close>

theorem concurrent_sends_unique:
  assumes ok: "cells kv (offsetKey key) \<noteq> Some OtherVal"
    and run: "run_sends key schedule (map (\<lambda>m. (m, Reading)) msgs) kv = (calls, kv')"
  shows "distinct (returned calls) \<and>
         set (returned calls) \<subseteq> {next_offset kv (offsetKey key) ..< next_offset kv' (offsetKey key)} \<and>
         (list_all (\<lambda>c. won (snd c) = replied (snd c)) calls \<longrightarrow>
            set (returned calls) = {next_offset kv (offsetKey key) ..< next_offset kv' (offsetKey key)}) \<and>
         (list_all (\<lambda>c. replied (snd c) \<noteq> None) calls \<longrightarrow>
            set (returned calls) =
              {next_offset kv (offsetKey key) ..< next_offset kv (offsetKey key) + int (length msgs)})"
proof -
  let ?a = "next_offset kv (offsetKey key)"
  let ?b = "next_offset kv' (offsetKey key)"
  from sends_inv_run[OF sends_inv_init[OF ok] run]
  have inv: "sends_inv key ?a calls kv'" and len: "length calls = length msgs"
    by (auto dest: arg_cong[where f = length])
  then have w: "wins calls = mset [?a..?b - 1]" and le: "?a \<le> ?b"
    by (simp_all add: sends_inv_def)
  have range: "set [?a..?b - 1] = {?a ..< ?b}" by auto
  from returned_subset_wins[of calls] w have sub: "mset (returned calls) \<subseteq># mset [?a..?b - 1]"
    by simp
  have d: "distinct (returned calls)"
    using sub by (rule distinct_sub_mset) simp
  have s: "set (returned calls) \<subseteq> {?a ..< ?b}"
    using set_mset_mono[OF sub] range by simp
  have e: "set (returned calls) = {?a ..< ?b}"
    if "list_all (\<lambda>c. won (snd c) = replied (snd c)) calls"
  proof -
    from returned_eq_wins[OF that] w have "mset (returned calls) = mset [?a..?b - 1]" by simp
    then have "set (returned calls) = set [?a..?b - 1]" by (rule mset_eq_setD)
    with range show ?thesis by simp
  qed
  have a: "set (returned calls) = {?a ..< ?a + int (length msgs)}"
    if "list_all (\<lambda>c. replied (snd c) \<noteq> None) calls"
  proof -
    from returned_all_replied[OF that]
    have l: "length (returned calls) = length calls"
      and all: "list_all (\<lambda>c. won (snd c) = replied (snd c)) calls" by simp_all
    from returned_eq_wins[OF all] w have "mset (returned calls) = mset [?a..?b - 1]" by simp
    then have "length (returned calls) = length [?a..?b - 1]" by (rule mset_eq_length)
    with l len le have "?b = ?a + int (length msgs)" by simp
    with e[OF all] show ?thesis by simp
  qed
  from d s e a show ?thesis by blast
qed

lemmas service_eval = ReadInt_def Read_def CompareAndSwap_def Write_def fault_def served_def
  offsetKey_def logEntryKey_def committedOffsetKey_def itoa_def decimal.simps digit_def
  KeyDoesNotExist_def PreconditionFailed_def

theorem concurrent_sends_unique_witness:
  "fst (run_sends ''x'' [0, 1, 2, 0, 1, 2, 0, 1, 2, 1, 2, 1, 2, 2, 2]
     (map (\<lambda>m. (m, Reading)) [10, 20, 30]) \<lparr>cells = Map.empty, pending = []\<rparr>) =
     [(10, Replied 0), (20, Replied 1), (30, Replied 2)] \<and>
   returned [(10, Replied 0), (20, Replied 1), (30, Replied 2)] = [0, 1, 2] \<and>
   set [0, 1, 2 :: int] = {0 ..< 0 + int (length [10, 20, 30 :: int])}"
  using concurrent_sends_unique[of "\<lparr>cells = Map.empty, pending = []\<rparr>" "''x''"
      "[0, 1, 2, 0, 1, 2, 0, 1, 2, 1, 2, 1, 2, 2, 2]" "[10, 20, 30]"
      "[(10, Replied 0), (20, Replied 1), (30, Replied 2)]"
      "snd (run_sends ''x'' [0, 1, 2, 0, 1, 2, 0, 1, 2, 1, 2, 1, 2, 2, 2]
         (map (\<lambda>m. (m, Reading)) [10, 20, 30]) \<lparr>cells = Map.empty, pending = []\<rparr>)"]
  by (simp add: service_eval returned_def map_filter_simps next_offset_def)

theorem concurrent_sends_gap_counterexample:
  "fst (run_sends ''x'' [0, 1, 2, 0, 1, 2, 0, 1, 2, 1, 2, 1, 2, 2, 2]
     [(10, Reading), (20, Reading), (30, Reading)]
     \<lparr>cells = Map.empty,
      pending = [None, None, None, None, None, None, None, None, None, None, None,
                 Some (RPCError 11)]\<rparr>) =
     [(10, Replied 0), (20, WriteFailed 1 (RPCError 11)), (30, Replied 2)] \<and>
   returned [(10, Replied 0), (20, WriteFailed 1 (RPCError 11)), (30, Replied 2)] = [0, 2]"
  by (simp add: service_eval returned_def map_filter_simps)

text \<open>
  The handler run step by step and by itself does what \<open>send_kv\<close> does: the two
  embeddings of \<open>send\<close> agree.
\<close>

lemma alone_read_failed:
  "ReadInt (offsetKey key) kv = ((v, Some e), kv1) \<Longrightarrow> e \<noteq> RPCError KeyDoesNotExist \<Longrightarrow>
   alone key msg kv (ReadFailed e) kv1"
  unfolding alone_def by (rule exI[of _ 1]) simp

lemma alone_swapped:
  assumes "ReadInt (offsetKey key) kv = ((v, err), kv1)"
    and "err = None \<and> old = v \<or> err = Some (RPCError KeyDoesNotExist) \<and> old = - 1"
    and "CompareAndSwap (offsetKey key) (IntVal old) (IntVal (old + 1)) True kv1 = (None, kv2)"
  shows "alone key msg kv (Writing (old + 1)) kv2"
  unfolding alone_def using assms by (intro exI[of _ 2]) (auto simp: numeral_2_eq_2)

lemma alone_retry:
  assumes "ReadInt (offsetKey key) kv = ((v, err), kv1)"
    and "err = None \<and> old = v \<or> err = Some (RPCError KeyDoesNotExist) \<and> old = - 1"
    and "CompareAndSwap (offsetKey key) (IntVal old) (IntVal (old + 1)) True kv1 = (Some e, kv2)"
    and "alone key msg kv2 at' kv'"
  shows "alone key msg kv at' kv'"
proof -
  from assms(4) obtain n where "run_sends key (replicate n 0) [(msg, Reading)] kv2 = ([(msg, at')], kv')"
    by (auto simp: alone_def)
  with assms(1-3) have "run_sends key (replicate (Suc (Suc n)) 0) [(msg, Reading)] kv = ([(msg, at')], kv')"
    by auto
  then show ?thesis unfolding alone_def by blast
qed

lemma send_loop_alone:
  assumes "send_loop okey kv = Some y"
  shows "\<forall>key. okey = offsetKey key \<longrightarrow>
           alone key msg kv (case fst y of Inl e \<Rightarrow> ReadFailed e | Inr offset \<Rightarrow> Writing offset) (snd y)"
proof (rule send_loop.raw_induct[where P = "\<lambda>okey kv y. \<forall>key. okey = offsetKey key \<longrightarrow>
           alone key msg kv (case fst y of Inl e \<Rightarrow> ReadFailed e | Inr offset \<Rightarrow> Writing offset) (snd y)",
      OF _ assms], goal_cases)
  case (1 send_loop okey kv y)
  show ?case
  proof (intro allI impI)
    fix key assume k: "okey = offsetKey key"
    obtain v err kv1 where rd: "ReadInt okey kv = ((v, err), kv1)"
      by (cases "ReadInt okey kv") auto
    show "alone key msg kv (case fst y of Inl e \<Rightarrow> ReadFailed e | Inr offset \<Rightarrow> Writing offset) (snd y)"
    proof (cases "\<exists>e. err = Some e \<and> e \<noteq> RPCError KeyDoesNotExist")
      case True
      then obtain e where e: "err = Some e" "e \<noteq> RPCError KeyDoesNotExist" by blast
      with rd "1"(2) have "y = (Inl e, kv1)" by simp
      with alone_read_failed[of key kv v e kv1 msg] rd e k show ?thesis by simp
    next
      case False
      define old where "old = (case err of None \<Rightarrow> v | Some e \<Rightarrow> - 1)"
      from False have oe: "err = None \<and> old = v \<or> err = Some (RPCError KeyDoesNotExist) \<and> old = - 1"
        by (cases err) (auto simp: old_def)
      obtain cerr kv2 where cas: "CompareAndSwap okey (IntVal old) (IntVal (old + 1)) True kv1 = (cerr, kv2)"
        by (cases "CompareAndSwap okey (IntVal old) (IntVal (old + 1)) True kv1")
      from False rd cas "1"(2)
      have body: "(case cerr of None \<Rightarrow> Some (Inr (old + 1), kv2) | Some e \<Rightarrow> send_loop okey kv2) = Some y"
        unfolding old_def by (cases err; cases cerr) auto
      show ?thesis
      proof (cases cerr)
        case None
        with body have "y = (Inr (old + 1), kv2)" by simp
        with alone_swapped[of key kv v err kv1 old kv2 msg] rd oe cas None k show ?thesis by simp
      next
        case (Some e)
        with body have "send_loop okey kv2 = Some y" by simp
        from "1"(1)[OF this] k
        have "alone key msg kv2 (case fst y of Inl e \<Rightarrow> ReadFailed e | Inr offset \<Rightarrow> Writing offset) (snd y)"
          by blast
        with alone_retry[of key kv v err kv1 old e kv2 msg] rd oe cas Some k show ?thesis by simp
      qed
    qed
  qed
qed

lemma run_sends_append:
  "run_sends key (s1 @ s2) calls kv =
     (case run_sends key s1 calls kv of (calls1, kv1) \<Rightarrow> run_sends key s2 calls1 kv1)"
  by (induction s1 arbitrary: calls kv) (auto split: prod.splits)

lemma send_kv_alone:
  assumes "send_kv key msg kv = Some (r, kv')"
  shows "\<exists>at'. alone key msg kv at' kv' \<and> outcome at' = Some r"
proof -
  from assms obtain a kv1 where l: "send_loop (offsetKey key) kv = Some (a, kv1)"
    by (auto simp: send_kv_def split: option.splits)
  from send_loop_alone[OF l, of msg]
  have al: "alone key msg kv (case a of Inl e \<Rightarrow> ReadFailed e | Inr offset \<Rightarrow> Writing offset) kv1"
    by simp
  show ?thesis
  proof (cases a)
    case (Inl e)
    with l assms have "r = Inl e" "kv' = kv1" by (simp_all add: send_kv_def)
    with al Inl show ?thesis by (intro exI[of _ "ReadFailed e"]) simp
  next
    case (Inr off)
    with al obtain n where n: "run_sends key (replicate n 0) [(msg, Reading)] kv = ([(msg, Writing off)], kv1)"
      by (auto simp: alone_def)
    obtain werr kv2 where w: "Write (logEntryKey key off) (IntVal msg) kv1 = (werr, kv2)"
      by (cases "Write (logEntryKey key off) (IntVal msg) kv1")
    define at' where "at' = (case werr of None \<Rightarrow> Replied off | Some e \<Rightarrow> WriteFailed off e)"
    have "run_sends key (replicate n 0 @ [0]) [(msg, Reading)] kv = ([(msg, at')], kv2)"
      using n w by (cases werr) (simp_all add: run_sends_append at'_def)
    then have "run_sends key (replicate (Suc n) 0) [(msg, Reading)] kv = ([(msg, at')], kv2)"
      by (simp add: replicate_append_same)
    then have "alone key msg kv at' kv2" unfolding alone_def by blast
    moreover from l Inr w assms have "outcome at' = Some r \<and> kv' = kv2"
      by (cases werr) (simp_all add: send_kv_def at'_def)
    ultimately show ?thesis by blast
  qed
qed

subsection \<open>Errors of the service in the retry loops\<close>

lemma send_loop_read_error:
  "ReadInt okey kv = ((v, Some e), kv1) \<Longrightarrow> e \<noteq> RPCError KeyDoesNotExist \<Longrightarrow>
   send_loop okey kv = Some (Inl e, kv1)"
  by (subst send_loop.simps) simp

lemma send_loop_swap_error:
  "ReadInt okey kv = ((v, err), kv1) \<Longrightarrow>
   err = None \<and> old = v \<or> err = Some (RPCError KeyDoesNotExist) \<and> old = - 1 \<Longrightarrow>
   CompareAndSwap okey (IntVal old) (IntVal (old + 1)) True kv1 = (Some e, kv2) \<Longrightarrow>
   send_loop okey kv = send_loop okey kv2"
  by (subst send_loop.simps) auto

lemma commit_loop_read_error:
  "ReadInt ckey kv = ((v, Some e), kv1) \<Longrightarrow> e \<noteq> RPCError KeyDoesNotExist \<Longrightarrow>
   commit_loop ckey newOffset kv = Some (Some e, kv1)"
  by (subst commit_loop.simps) simp

lemma commit_loop_swap_error:
  "ReadInt ckey kv = ((v, err), kv1) \<Longrightarrow>
   err = None \<and> old = v \<or> err = Some (RPCError KeyDoesNotExist) \<and> old = 0 \<Longrightarrow>
   CompareAndSwap ckey (IntVal old) (IntVal (max old newOffset)) True kv1 = (Some e, kv2) \<Longrightarrow>
   commit_loop ckey newOffset kv = commit_loop ckey newOffset kv2"
  by (subst commit_loop.simps) auto

text \<open>
  Claim C8, as amended. In the retry loops of \<open>send\<close> and \<open>commit_offsets\<close>, a read of
  the marker that fails with an error other than "not found" ends the handler at once with
  that error, and nothing is retried. A compare-and-swap that fails with any error, a
  conflict or another one, sends the handler round the loop again. The claim as stated
  has only conflicts retried; the handlers retry after every failed swap.
\<close>

theorem retry_after_failed_swap:
  "(ReadInt (offsetKey key) kv = ((v, Some e), kv') \<and> e \<noteq> RPCError KeyDoesNotExist \<longrightarrow>
      send_kv key msg kv = Some (Inl e, kv')) \<and>
   (ReadInt (committedOffsetKey key) kv = ((v, Some e), kv') \<and> e \<noteq> RPCError KeyDoesNotExist \<longrightarrow>
      commit_offsets_kv ((key, newOffset) # rest) kv = Some (Inl e, kv')) \<and>
   (ReadInt okey kv = ((v, err), kv') \<and>
    (err = None \<and> old = v \<or> err = Some (RPCError KeyDoesNotExist) \<and> old = - 1) \<and>
    CompareAndSwap okey (IntVal old) (IntVal (old + 1)) True kv' = (Some e', kv'') \<longrightarrow>
      send_loop okey kv = send_loop okey kv'') \<and>
   (ReadInt ckey kv = ((v, err), kv') \<and>
    (err = None \<and> old = v \<or> err = Some (RPCError KeyDoesNotExist) \<and> old = 0) \<and>
    CompareAndSwap ckey (IntVal old) (IntVal (max old newOffset)) True kv' = (Some e', kv'') \<longrightarrow>
      commit_loop ckey newOffset kv = commit_loop ckey newOffset kv'')"
proof (intro conjI impI)
  assume "ReadInt (offsetKey key) kv = ((v, Some e), kv') \<and> e \<noteq> RPCError KeyDoesNotExist"
  then have "send_loop (offsetKey key) kv = Some (Inl e, kv')"
    using send_loop_read_error by blast
  then show "send_kv key msg kv = Some (Inl e, kv')" by (simp add: send_kv_def)
next
  assume "ReadInt (committedOffsetKey key) kv = ((v, Some e), kv') \<and> e \<noteq> RPCError KeyDoesNotExist"
  then have "commit_loop (committedOffsetKey key) newOffset kv = Some (Some e, kv')"
    using commit_loop_read_error by blast
  then show "commit_offsets_kv ((key, newOffset) # rest) kv = Some (Inl e, kv')"
    by (simp add: commit_offsets_kv_def)
next
  assume "ReadInt okey kv = ((v, err), kv') \<and>
    (err = None \<and> old = v \<or> err = Some (RPCError KeyDoesNotExist) \<and> old = - 1) \<and>
    CompareAndSwap okey (IntVal old) (IntVal (old + 1)) True kv' = (Some e', kv'')"
  then show "send_loop okey kv = send_loop okey kv''"
    using send_loop_swap_error by blast
next
  assume "ReadInt ckey kv = ((v, err), kv') \<and>
    (err = None \<and> old = v \<or> err = Some (RPCError KeyDoesNotExist) \<and> old = 0) \<and>
    CompareAndSwap ckey (IntVal old) (IntVal (max old newOffset)) True kv' = (Some e', kv'')"
  then show "commit_loop ckey newOffset kv = commit_loop ckey newOffset kv''"
    using commit_loop_swap_error by blast
qed

theorem retry_after_failed_swap_witness:
  "send_kv ''x'' 10 \<lparr>cells = Map.empty, pending = [Some (RPCError 11)]\<rparr> =
     Some (Inl (RPCError 11), \<lparr>cells = Map.empty, pending = []\<rparr>) \<and>
   commit_offsets_kv [(''x'', 5)] \<lparr>cells = Map.empty, pending = [Some (RPCError 11)]\<rparr> =
     Some (Inl (RPCError 11), \<lparr>cells = Map.empty, pending = []\<rparr>) \<and>
   send_loop ''x/highest_offset'' \<lparr>cells = Map.empty, pending = [None, Some (RPCError 22)]\<rparr> =
     send_loop ''x/highest_offset'' \<lparr>cells = Map.empty, pending = []\<rparr> \<and>
   commit_loop ''x/committed_offset'' 5 \<lparr>cells = Map.empty, pending = [None, Some (RPCError 22)]\<rparr> =
     commit_loop ''x/committed_offset'' 5 \<lparr>cells = Map.empty, pending = []\<rparr>"
  using retry_after_failed_swap[of "''x''" "\<lparr>cells = Map.empty, pending = [Some (RPCError 11)]\<rparr>"
      0 "RPCError 11" "\<lparr>cells = Map.empty, pending = []\<rparr>" 10 5 "[]"]
    retry_after_failed_swap[where okey = "''x/highest_offset''" and ckey = "''x/committed_offset''"
      and kv = "\<lparr>cells = Map.empty, pending = [None, Some (RPCError 22)]\<rparr>"
      and v = 0 and err = "Some (RPCError KeyDoesNotExist)" and old = "- 1"
      and kv' = "\<lparr>cells = Map.empty, pending = [Some (RPCError 22)]\<rparr>"
      and e' = "RPCError 22" and kv'' = "\<lparr>cells = Map.empty, pending = []\<rparr>"]
    retry_after_failed_swap[where okey = "''x/highest_offset''" and ckey = "''x/committed_offset''"
      and kv = "\<lparr>cells = Map.empty, pending = [None, Some (RPCError 22)]\<rparr>"
      and v = 0 and err = "Some (RPCError KeyDoesNotExist)" and old = 0 and newOffset = 5
      and kv' = "\<lparr>cells = Map.empty, pending = [Some (RPCError 22)]\<rparr>"
      and e' = "RPCError 22" and kv'' = "\<lparr>cells = Map.empty, pending = []\<rparr>"]
  by (simp add: service_eval)

theorem retry_after_unavailable_swap_counterexample:
  "map_option fst (send_kv ''x'' 10 \<lparr>cells = Map.empty, pending = [None, Some (RPCError 11)]\<rparr>) =
     Some (Inr (send_ok 0)) \<and>
   map_option fst (commit_offsets_kv [(''x'', 5)]
     \<lparr>cells = Map.empty, pending = [None, Some (RPCError 11)]\<rparr>) = Some (Inr commit_offsets_ok) \<and>
   RPCError 11 \<noteq> RPCError KeyDoesNotExist \<and> RPCError 11 \<noteq> RPCError PreconditionFailed"
  by (simp add: service_eval send_kv_def commit_offsets_kv_def send_loop.simps commit_loop.simps)

subsection \<open>A poll after a send\<close>

lemma stored_rec:
  "i \<le> h \<Longrightarrow> stored kv key i h =
     (case cells kv (logEntryKey key i) of Some (IntVal m) \<Rightarrow> [[i, m]] | _ \<Rightarrow> []) @ stored kv key (i + 1) h"
  by (simp add: stored_def upto_rec1[of i h])

lemma stored_empty: "h < i \<Longrightarrow> stored kv key i h = []"
  by (simp add: stored_def)

lemma stored_snoc:
  "i \<le> h \<Longrightarrow> stored kv key i h =
     stored kv key i (h - 1) @ (case cells kv (logEntryKey key h) of Some (IntVal m) \<Rightarrow> [[h, m]] | _ \<Rightarrow> [])"
  by (simp add: stored_def upto_rec2[of i h])

lemma stored_cong: "cells kv' = cells kv \<Longrightarrow> stored kv' key i h = stored kv key i h"
  by (simp add: stored_def)

lemma poll_scan_calm:
  "pending kv = [] \<Longrightarrow> cnt < 3 \<Longrightarrow>
   poll_scan key i h cnt acc kv = (acc @ take (3 - cnt) (stored kv key i h), kv)"
proof (induction key i h cnt acc kv rule: poll_scan.induct)
  case (1 key i h cnt acc kv)
  from "1.prems"(1) have sv: "served kv = kv" "fault kv = None" by (simp_all add: served_def fault_def)
  show ?case
  proof (cases "i \<le> h")
    case False
    then show ?thesis by (simp add: poll_scan.simps stored_empty)
  next
    case True
    show ?thesis
    proof (cases "cells kv (logEntryKey key i)")
      case None
      with sv have rd: "Read (logEntryKey key i) kv = (Inl (RPCError KeyDoesNotExist), kv)"
        by (simp add: Read_def)
      from "1.IH"(1)[OF True rd[symmetric] refl "1.prems"] rd True None show ?thesis
        by (subst poll_scan.simps) (simp add: stored_rec)
    next
      case (Some w)
      with sv have rd: "Read (logEntryKey key i) kv = (Inr w, kv)" by (simp add: Read_def)
      show ?thesis
      proof (cases w)
        case OtherVal
        from "1.IH"(3)[OF True rd[symmetric] refl _ "1.prems"] OtherVal rd True Some show ?thesis
          by (subst poll_scan.simps) (simp add: stored_rec)
      next
        case (IntVal m)
        show ?thesis
        proof (cases "cnt + 1 = 3")
          case True
          with IntVal rd \<open>i \<le> h\<close> Some show ?thesis
            by (subst poll_scan.simps) (simp add: stored_rec)
        next
          case False
          with "1.prems" have lt: "cnt + 1 < 3" by simp
          then have "3 - cnt = Suc (3 - (cnt + 1))" by simp
          with "1.IH"(2)[OF True rd[symmetric] refl _ False "1.prems"(1) lt] IntVal rd True Some False
          show ?thesis
            by (subst poll_scan.simps) (simp add: stored_rec)
        qed
      qed
    qed
  qed
qed

lemma scanned_from: "scanned kv key i h es \<Longrightarrow> (\<forall>e \<in> set es. i \<le> hd e) \<and> sorted_wrt (\<lambda>a b. hd a < hd b) es"
  by (auto simp: scanned_def)

lemma poll_kv_single:
  assumes "poll_kv [(key, s)] kv = (r, kv')"
  shows "\<exists>es. r = Inr (poll_ok [key \<mapsto> es]) \<and> (\<forall>e \<in> set es. s \<le> hd e) \<and>
           sorted_wrt (\<lambda>a b. hd a < hd b) es \<and>
           (pending kv = [] \<longrightarrow>
              es = (case cells kv (offsetKey key) of
                      Some (IntVal h) \<Rightarrow> take 3 (stored kv key s h)
                    | Some OtherVal \<Rightarrow> take 3 (stored kv key s 0)
                    | None \<Rightarrow> []))"
proof -
  obtain h err kv1 where rd: "ReadInt (offsetKey key) kv = ((h, err), kv1)"
    by (cases "ReadInt (offsetKey key) kv") auto
  note rc = ReadInt_cases[OF rd]
  show ?thesis
  proof (cases err)
    case (Some e)
    with rd assms have r: "r = Inr (poll_ok [key \<mapsto> []])" by (auto simp: poll_kv_def)
    have "pending kv = [] \<Longrightarrow> cells kv (offsetKey key) = None"
      using rc Some by (auto simp: fault_def)
    with r show ?thesis by auto
  next
    case None
    obtain lm kv2 where sc: "poll_scan key s h 0 [] kv1 = (lm, kv2)"
      by (cases "poll_scan key s h 0 [] kv1")
    with rd None assms have r: "r = Inr (poll_ok [key \<mapsto> lm])" by (auto simp: poll_kv_def)
    from poll_scan_spec[OF sc] have "scanned kv1 key s h lm" by auto
    from scanned_from[OF this] have p: "(\<forall>e \<in> set lm. s \<le> hd e)" "sorted_wrt (\<lambda>a b. hd a < hd b) lm"
      by simp_all
    have "lm = (case cells kv (offsetKey key) of
                      Some (IntVal h) \<Rightarrow> take 3 (stored kv key s h)
                    | Some OtherVal \<Rightarrow> take 3 (stored kv key s 0)
                    | None \<Rightarrow> [])" if calm: "pending kv = []"
    proof -
      from calm rc have k1: "kv1 = kv" by (simp add: served_def)
      from sc k1 have "poll_scan key s h 0 [] kv = (lm, kv2)" by simp
      moreover from poll_scan_calm[OF calm, of 0 key s h "[]"]
      have "poll_scan key s h 0 [] kv = (take 3 (stored kv key s h), kv)" by simp
      ultimately have lm: "lm = take 3 (stored kv key s h)" by (metis prod.inject)
      from rc None have "cells kv (offsetKey key) = Some (IntVal h) \<or> cells kv (offsetKey key) = Some OtherVal \<and> h = 0"
        by simp
      with lm show ?thesis by auto
    qed
    with r p show ?thesis by auto
  qed
qed

lemma poll_mem_single:
  "poll_mem [(key, s)] ls =
     (Inr (poll_ok [key \<mapsto> take 3 (map (\<lambda>e. [Offset e, Message e])
        (filter (\<lambda>e. s \<le> Offset e) (entries_mem ls key)))]), ls)"
  by (simp add: poll_mem_def entries_mem_def poll_entries_mem_take split: option.splits)

lemma in_take_snoc: "length xs < n \<Longrightarrow> x \<in> set (take n (xs @ [x]))"
  by simp

lemma send_mem_entries:
  assumes "wf_logs ls" "send_mem key msg ls = (r, ls')"
  shows "r = Inr (send_ok (next_offset_mem ls key)) \<and> wf_logs ls' \<and>
         entries_mem ls' key = entries_mem ls key @ [\<lparr>Offset = next_offset_mem ls key, Message = msg\<rparr>] \<and>
         (\<forall>e \<in> set (entries_mem ls key). Offset e < next_offset_mem ls key)"
proof (cases "map_of ls key")
  case None
  with assms send_mem_wf[OF assms(1), of key msg] show ?thesis
    by (auto simp: send_mem_def entries_mem_def next_offset_mem_def Let_def update_conv')
next
  case (Some lg)
  with assms(1) have w: "wf_log lg" by (rule wf_logs_lookup)
  then have ne: "LogEntries lg \<noteq> []" and so: "sorted_wrt (<) (map Offset (LogEntries lg))"
    by (simp_all add: wf_log_def)
  have "\<forall>e \<in> set (LogEntries lg). Offset e < Offset (last (LogEntries lg)) + 1"
    using sorted_le_last[OF so] ne by (fastforce simp: last_map)
  with Some ne assms send_mem_wf[OF assms(1), of key msg] show ?thesis
    by (auto simp: send_mem_def entries_mem_def next_offset_mem_def Let_def update_conv')
qed

text \<open>
  Claim C5, as amended. After \<open>send\<close> of \<open>msg\<close> to a key has replied with offset
  \<open>offset\<close>, a \<open>poll\<close> of that key from \<open>s \<le> offset\<close> lists no entry below \<open>s\<close> and
  lists its entries in ascending order of offset; and it lists \<open>[offset, msg]\<close> when
  fewer than three entries lie at the offsets from \<open>s\<close> up to \<open>offset\<close>, not included
  (in the distributed program: when no call of the service fails during the poll). The
  claim as stated promises the entry for every \<open>s \<le> offset\<close>; the batch ends at three
  entries, so with three older entries from \<open>s\<close> on the new entry is not in the reply.
\<close>

theorem poll_after_send:
  "(wf_logs ls \<and> send_mem key msg ls = (Inr (send_ok offset), ls') \<and> s \<le> offset \<longrightarrow>
      (\<exists>es. poll_mem [(key, s)] ls' = (Inr (poll_ok [key \<mapsto> es]), ls') \<and>
         (\<forall>e \<in> set es. s \<le> hd e) \<and> sorted_wrt (\<lambda>a b. hd a < hd b) es \<and>
         (length (filter (\<lambda>e. s \<le> Offset e \<and> Offset e < offset) (entries_mem ls' key)) < 3 \<longrightarrow>
            [offset, msg] \<in> set es))) \<and>
   (send_kv key msg kv = Some (Inr (send_ok offset), kv') \<and> s \<le> offset \<longrightarrow>
      (\<exists>es. fst (poll_kv [(key, s)] kv') = Inr (poll_ok [key \<mapsto> es]) \<and>
         (\<forall>e \<in> set es. s \<le> hd e) \<and> sorted_wrt (\<lambda>a b. hd a < hd b) es \<and>
         (pending kv' = [] \<and> length (stored kv' key s (offset - 1)) < 3 \<longrightarrow>
            [offset, msg] \<in> set es)))"
proof (intro conjI impI)
  assume a: "wf_logs ls \<and> send_mem key msg ls = (Inr (send_ok offset), ls') \<and> s \<le> offset"
  then have wf: "wf_logs ls" and sm: "send_mem key msg ls = (Inr (send_ok offset), ls')" and le: "s \<le> offset"
    by simp_all
  from send_mem_entries[OF wf sm] have off: "offset = next_offset_mem ls key" and wf': "wf_logs ls'"
    and ent: "entries_mem ls' key = entries_mem ls key @ [\<lparr>Offset = offset, Message = msg\<rparr>]"
    and below: "\<forall>e \<in> set (entries_mem ls key). Offset e < offset"
    by simp_all
  let ?old = "filter (\<lambda>e. s \<le> Offset e) (entries_mem ls key)"
  let ?es = "take 3 (map (\<lambda>e. [Offset e, Message e]) (filter (\<lambda>e. s \<le> Offset e) (entries_mem ls' key)))"
  have f: "filter (\<lambda>e. s \<le> Offset e) (entries_mem ls' key) = ?old @ [\<lparr>Offset = offset, Message = msg\<rparr>]"
    using ent le by simp
  have f2: "filter (\<lambda>e. s \<le> Offset e \<and> Offset e < offset) (entries_mem ls' key) = ?old"
    using ent below by (auto intro: filter_cong)
  have so: "sorted_wrt (<) (map Offset (entries_mem ls' key))"
  proof (cases "map_of ls' key")
    case None
    then show ?thesis by (simp add: entries_mem_def)
  next
    case (Some lg)
    with wf' have "wf_log lg" by (rule wf_logs_lookup)
    with Some show ?thesis by (simp add: entries_mem_def wf_log_def)
  qed
  then have "sorted_wrt (\<lambda>a b. Offset a < Offset b) (filter (\<lambda>e. s \<le> Offset e) (entries_mem ls' key))"
    by (simp add: sorted_wrt_map sorted_wrt_filter)
  then have "sorted_wrt (\<lambda>a b. hd a < hd b)
      (map (\<lambda>e. [Offset e, Message e]) (filter (\<lambda>e. s \<le> Offset e) (entries_mem ls' key)))"
    by (simp add: sorted_wrt_map)
  then have s1: "sorted_wrt (\<lambda>a b. hd a < hd b) ?es" by (rule sorted_wrt_take)
  have s2: "\<forall>e \<in> set ?es. s \<le> hd e" by (auto dest!: in_set_takeD)
  have s3: "[offset, msg] \<in> set ?es"
    if "length (filter (\<lambda>e. s \<le> Offset e \<and> Offset e < offset) (entries_mem ls' key)) < 3"
  proof -
    from that f2 have "length (map (\<lambda>e. [Offset e, Message e]) ?old) < 3" by simp
    from in_take_snoc[OF this, of "[offset, msg]"] f show ?thesis by simp
  qed
  from s1 s2 s3 poll_mem_single[of key s ls']
  show "\<exists>es. poll_mem [(key, s)] ls' = (Inr (poll_ok [key \<mapsto> es]), ls') \<and>
         (\<forall>e \<in> set es. s \<le> hd e) \<and> sorted_wrt (\<lambda>a b. hd a < hd b) es \<and>
         (length (filter (\<lambda>e. s \<le> Offset e \<and> Offset e < offset) (entries_mem ls' key)) < 3 \<longrightarrow>
            [offset, msg] \<in> set es)"
    by blast
next
  assume a: "send_kv key msg kv = Some (Inr (send_ok offset), kv') \<and> s \<le> offset"
  then have sk: "send_kv key msg kv = Some (Inr (send_ok offset), kv')" and le: "s \<le> offset" by simp_all
  from send_kv_spec[OF sk] have
    c: "cells kv' = (cells kv)(offsetKey key \<mapsto> IntVal offset, logEntryKey key offset \<mapsto> IntVal msg)"
    by simp
  then have mk: "cells kv' (offsetKey key) = Some (IntVal offset)"
    and en: "cells kv' (logEntryKey key offset) = Some (IntVal msg)" by simp_all
  obtain r kv2 where p: "poll_kv [(key, s)] kv' = (r, kv2)" by (cases "poll_kv [(key, s)] kv'")
  from poll_kv_single[OF p] mk obtain es where
    r: "r = Inr (poll_ok [key \<mapsto> es])" and s2: "\<forall>e \<in> set es. s \<le> hd e"
    and s1: "sorted_wrt (\<lambda>a b. hd a < hd b) es"
    and calm: "pending kv' = [] \<Longrightarrow> es = take 3 (stored kv' key s offset)"
    by auto
  have s3: "[offset, msg] \<in> set es" if "pending kv' = [] \<and> length (stored kv' key s (offset - 1)) < 3"
  proof -
    from that calm have "es = take 3 (stored kv' key s offset)" by simp
    also have "stored kv' key s offset = stored kv' key s (offset - 1) @ [[offset, msg]]"
      using stored_snoc[OF le, of kv' key] en by simp
    finally show ?thesis using that in_take_snoc[of "stored kv' key s (offset - 1)" 3 "[offset, msg]"]
      by simp
  qed
  from r s1 s2 s3 p
  show "\<exists>es. fst (poll_kv [(key, s)] kv') = Inr (poll_ok [key \<mapsto> es]) \<and>
         (\<forall>e \<in> set es. s \<le> hd e) \<and> sorted_wrt (\<lambda>a b. hd a < hd b) es \<and>
         (pending kv' = [] \<and> length (stored kv' key s (offset - 1)) < 3 \<longrightarrow>
            [offset, msg] \<in> set es)"
    by auto
qed

theorem poll_after_send_witness:
  "send_mem ''x'' 30
     [(''x'', \<lparr>CommittedOffset = 1000, LogEntries =
        [\<lparr>Offset = 1000, Message = 10\<rparr>, \<lparr>Offset = 1001, Message = 20\<rparr>]\<rparr>)] =
     (Inr (send_ok 1002),
      [(''x'', \<lparr>CommittedOffset = 1000, LogEntries =
        [\<lparr>Offset = 1000, Message = 10\<rparr>, \<lparr>Offset = 1001, Message = 20\<rparr>,
         \<lparr>Offset = 1002, Message = 30\<rparr>]\<rparr>)]) \<and>
   fst (poll_mem [(''x'', 1000)]
      [(''x'', \<lparr>CommittedOffset = 1000, LogEntries =
        [\<lparr>Offset = 1000, Message = 10\<rparr>, \<lparr>Offset = 1001, Message = 20\<rparr>,
         \<lparr>Offset = 1002, Message = 30\<rparr>]\<rparr>)]) =
     Inr (poll_ok [''x'' \<mapsto> [[1000, 10], [1001, 20], [1002, 30]]]) \<and>
   send_kv ''x'' 30
     \<lparr>cells = [''x/highest_offset'' \<mapsto> IntVal 1, ''x/data/0'' \<mapsto> IntVal 10,
               ''x/data/1'' \<mapsto> IntVal 20], pending = []\<rparr> =
     Some (Inr (send_ok 2),
       \<lparr>cells = [''x/highest_offset'' \<mapsto> IntVal 2, ''x/data/0'' \<mapsto> IntVal 10,
                 ''x/data/1'' \<mapsto> IntVal 20, ''x/data/2'' \<mapsto> IntVal 30], pending = []\<rparr>) \<and>
   fst (poll_kv [(''x'', 0)]
       \<lparr>cells = [''x/highest_offset'' \<mapsto> IntVal 2, ''x/data/0'' \<mapsto> IntVal 10,
                 ''x/data/1'' \<mapsto> IntVal 20, ''x/data/2'' \<mapsto> IntVal 30], pending = []\<rparr>) =
     Inr (poll_ok [''x'' \<mapsto> [[0, 10], [1, 20], [2, 30]]])"
  using poll_after_send[of
      "[(''x'', \<lparr>CommittedOffset = 1000, LogEntries =
        [\<lparr>Offset = 1000, Message = 10\<rparr>, \<lparr>Offset = 1001, Message = 20\<rparr>]\<rparr>)]"
      "''x''" 30 1002
      "[(''x'', \<lparr>CommittedOffset = 1000, LogEntries =
        [\<lparr>Offset = 1000, Message = 10\<rparr>, \<lparr>Offset = 1001, Message = 20\<rparr>,
         \<lparr>Offset = 1002, Message = 30\<rparr>]\<rparr>)]"
      1000
      "\<lparr>cells = [''x/highest_offset'' \<mapsto> IntVal 1, ''x/data/0'' \<mapsto> IntVal 10,
               ''x/data/1'' \<mapsto> IntVal 20], pending = []\<rparr>"
      "\<lparr>cells = [''x/highest_offset'' \<mapsto> IntVal 2, ''x/data/0'' \<mapsto> IntVal 10,
                 ''x/data/1'' \<mapsto> IntVal 20, ''x/data/2'' \<mapsto> IntVal 30], pending = []\<rparr>"]
  by (simp add: service_eval send_mem_def poll_mem_def send_kv_def poll_kv_def send_loop.simps
      poll_scan.simps fun_upd_twist)

theorem poll_after_send_batch_counterexample:
  "send_mem ''x'' 40
     [(''x'', \<lparr>CommittedOffset = 1000, LogEntries =
        [\<lparr>Offset = 1000, Message = 10\<rparr>, \<lparr>Offset = 1001, Message = 20\<rparr>,
         \<lparr>Offset = 1002, Message = 30\<rparr>]\<rparr>)] =
     (Inr (send_ok 1003),
      [(''x'', \<lparr>CommittedOffset = 1000, LogEntries =
        [\<lparr>Offset = 1000, Message = 10\<rparr>, \<lparr>Offset = 1001, Message = 20\<rparr>,
         \<lparr>Offset = 1002, Message = 30\<rparr>, \<lparr>Offset = 1003, Message = 40\<rparr>]\<rparr>)]) \<and>
   fst (poll_mem [(''x'', 1000)]
      [(''x'', \<lparr>CommittedOffset = 1000, LogEntries =
        [\<lparr>Offset = 1000, Message = 10\<rparr>, \<lparr>Offset = 1001, Message = 20\<rparr>,
         \<lparr>Offset = 1002, Message = 30\<rparr>, \<lparr>Offset = 1003, Message = 40\<rparr>]\<rparr>)]) =
     Inr (poll_ok [''x'' \<mapsto> [[1000, 10], [1001, 20], [1002, 30]]]) \<and>
   [1003, 40] \<notin> set [[1000, 10], [1001, 20], [1002, 30 :: int]] \<and>
   map_option fst (send_kv ''x'' 40
     \<lparr>cells = [''x/highest_offset'' \<mapsto> IntVal 2, ''x/data/0'' \<mapsto> IntVal 10,
               ''x/data/1'' \<mapsto> IntVal 20, ''x/data/2'' \<mapsto> IntVal 30], pending = []\<rparr>) =
     Some (Inr (send_ok 3)) \<and>
   fst (poll_kv [(''x'', 0)]
     \<lparr>cells = [''x/highest_offset'' \<mapsto> IntVal 3, ''x/data/0'' \<mapsto> IntVal 10,
               ''x/data/1'' \<mapsto> IntVal 20, ''x/data/2'' \<mapsto> IntVal 30,
               ''x/data/3'' \<mapsto> IntVal 40], pending = []\<rparr>) =
     Inr (poll_ok [''x'' \<mapsto> [[0, 10], [1, 20], [2, 30]]]) \<and>
   [3, 40] \<notin> set [[0, 10], [1, 20], [2, 30 :: int]]"
  by (simp add: service_eval send_mem_def poll_mem_def send_kv_def poll_kv_def send_loop.simps
      poll_scan.simps)

subsection \<open>Committed offsets and the whole scenario\<close>

lemma last_decimal: "decimal n \<noteq> [] \<and> last (decimal n) = digit (n mod 10)"
  by (subst (1 2) decimal.simps) simp

lemma digit_not_t: "d < 10 \<Longrightarrow> digit d \<noteq> CHR ''t''"
  by (drule digit_cases) (auto simp: digit_def)

lemma last_itoa: "itoa i \<noteq> [] \<and> last (itoa i) \<noteq> CHR ''t''"
  using last_decimal digit_not_t by (simp add: itoa_def)

lemma committedOffsetKey_neq_any_logEntryKey [simp]:
  "committedOffsetKey k \<noteq> logEntryKey k' i" "logEntryKey k' i \<noteq> committedOffsetKey k"
proof -
  have "last (logEntryKey k' i) \<noteq> CHR ''t''" using last_itoa[of i] by (simp add: logEntryKey_def)
  moreover have "last (committedOffsetKey k) = CHR ''t''" by (simp add: committedOffsetKey_def)
  ultimately show "committedOffsetKey k \<noteq> logEntryKey k' i" "logEntryKey k' i \<noteq> committedOffsetKey k"
    by metis+
qed

lemma committedOffsetKey_neq_any_offsetKey [simp]:
  "committedOffsetKey k \<noteq> offsetKey k'" "offsetKey k' \<noteq> committedOffsetKey k"
proof -
  have "rev (committedOffsetKey k) \<noteq> rev (offsetKey k')"
    by (simp add: committedOffsetKey_def offsetKey_def)
  then show "committedOffsetKey k \<noteq> offsetKey k'" "offsetKey k' \<noteq> committedOffsetKey k" by auto
qed

lemma list_keys_kv_spec:
  "list_keys_kv keys offsets kv = (res, kv') \<Longrightarrow>
   cells kv' = cells kv \<and>
   (k \<notin> set keys \<or> cells kv (committedOffsetKey k) = None \<longrightarrow> res k = offsets k) \<and>
   (pending kv = [] \<longrightarrow> pending kv' = [] \<and>
      (k \<in> set keys \<longrightarrow> (\<forall>i. cells kv (committedOffsetKey k) = Some (IntVal i) \<longrightarrow> res k = Some i)))"
proof (induction keys arbitrary: offsets kv)
  case Nil
  then show ?case by simp
next
  case (Cons a keys)
  obtain v err kv1 where rd: "ReadInt (committedOffsetKey a) kv = ((v, err), kv1)"
    by (cases "ReadInt (committedOffsetKey a) kv") auto
  note rc = ReadInt_cases[OF rd]
  from rc have c1: "cells kv1 = cells kv" and k1: "kv1 = served kv" by simp_all
  define m1 where "m1 = (case err of None \<Rightarrow> offsets(a \<mapsto> v) | Some e \<Rightarrow> offsets)"
  from Cons.prems rd have step: "list_keys_kv keys m1 kv1 = (res, kv')"
    by (cases err) (simp_all add: m1_def)
  note ih = Cons.IH[OF step]
  have p1: "pending kv = [] \<Longrightarrow> pending kv1 = []" using k1 by (simp add: served_def)
  have a1: "cells kv (committedOffsetKey k) = None \<Longrightarrow> m1 k = offsets k"
    using rc by (cases err; cases "k = a") (auto simp: m1_def)
  have a2: "k \<noteq> a \<Longrightarrow> m1 k = offsets k"
    by (cases err) (simp_all add: m1_def)
  have a3: "pending kv = [] \<Longrightarrow> cells kv (committedOffsetKey a) = Some (IntVal i) \<Longrightarrow> m1 a = Some i" for i
    using rc by (cases err) (auto simp: m1_def fault_def)
  show ?case
  proof (intro conjI impI)
    show "cells kv' = cells kv" using ih c1 by simp
  next
    assume "k \<notin> set (a # keys) \<or> cells kv (committedOffsetKey k) = None"
    then show "res k = offsets k"
      using ih c1 a1 a2 by auto
  next
    assume "pending kv = []"
    then show "pending kv' = []" using ih p1 by simp
  next
    assume calm: "pending kv = []" and "k \<in> set (a # keys)"
    show "\<forall>i. cells kv (committedOffsetKey k) = Some (IntVal i) \<longrightarrow> res k = Some i"
    proof (intro allI impI)
      fix i assume v: "cells kv (committedOffsetKey k) = Some (IntVal i)"
      show "res k = Some i"
      proof (cases "k \<in> set keys")
        case True
        with ih p1[OF calm] c1 v show ?thesis by simp
      next
        case False
        with \<open>k \<in> set (a # keys)\<close> have "k = a" by simp
        with False ih a3[OF calm, of i] v show ?thesis by simp
      qed
    qed
  qed
qed

lemma commit_keys_kv_spec:
  "commit_keys_kv offsets kv = Some (r, kv') \<Longrightarrow>
   (\<forall>x. (\<forall>k \<in> fst ` set offsets. x \<noteq> committedOffsetKey k) \<longrightarrow> cells kv' x = cells kv x) \<and>
   (r = None \<longrightarrow>
      (\<forall>k \<in> fst ` set offsets.
         cells kv' (committedOffsetKey k) =
           Some (IntVal (fold max (map snd (filter (\<lambda>p. fst p = k) offsets))
                           (committed kv (committedOffsetKey k))))))"
proof (induction offsets arbitrary: kv)
  case Nil
  then show ?case by simp
next
  case (Cons p offsets)
  obtain key c where p: "p = (key, c)" by (cases p)
  from Cons.prems p obtain r1 kv1 where
    cl: "commit_loop (committedOffsetKey key) c kv = Some (r1, kv1)"
    by (auto split: option.splits)
  note post = commit_loop_spec[OF cl, unfolded commit_loop_post_def]
  show ?case
  proof (cases r1)
    case (Some e)
    with cl Cons.prems p post show ?thesis by auto
  next
    case None
    with cl Cons.prems p have rest: "commit_keys_kv offsets kv1 = Some (r, kv')" by simp
    from None post have
      c1: "cells kv1 = (cells kv)(committedOffsetKey key \<mapsto> IntVal (max (committed kv (committedOffsetKey key)) c))"
      by simp
    note ih = Cons.IH[OF rest]
    show ?thesis
    proof (intro conjI allI impI ballI)
      fix x assume "\<forall>k \<in> fst ` set (p # offsets). x \<noteq> committedOffsetKey k"
      with ih c1 p show "cells kv' x = cells kv x" by simp
    next
      fix k assume ok: "r = None" and kin: "k \<in> fst ` set (p # offsets)"
      show "cells kv' (committedOffsetKey k) =
           Some (IntVal (fold max (map snd (filter (\<lambda>p. fst p = k) (p # offsets)))
                           (committed kv (committedOffsetKey k))))"
      proof (cases "k \<in> fst ` set offsets")
        case True
        with ih ok have "cells kv' (committedOffsetKey k) =
           Some (IntVal (fold max (map snd (filter (\<lambda>p. fst p = k) offsets))
                           (committed kv1 (committedOffsetKey k))))" by blast
        moreover have "committed kv1 (committedOffsetKey k) =
           (if k = key then max (committed kv (committedOffsetKey k)) c
            else committed kv (committedOffsetKey k))"
          using c1 by (simp add: committed_def)
        ultimately show ?thesis by (simp add: p max.commute)
      next
        case False
        with kin p have k: "k = key" by auto
        from False have nofilter: "filter (\<lambda>p. fst p = k) offsets = []"
          by (auto simp: filter_empty_conv)
        from False have "\<forall>k' \<in> fst ` set offsets. committedOffsetKey k \<noteq> committedOffsetKey k'"
          by auto
        with ih have "cells kv' (committedOffsetKey k) = cells kv1 (committedOffsetKey k)"
          by blast
        with c1 k nofilter show ?thesis by (simp add: p max.commute)
      qed
    qed
  qed
qed

lemma committed_in_Cons: "committed_in k (q # qs) = commits_of k q @ committed_in k qs"
  by (simp add: committed_in_def)


lemma handle_kv_committed:
  assumes "handle_kv q kv = Some (r, kv')"
  shows "(commits_of k q = [] \<longrightarrow> cells kv' (committedOffsetKey k) = cells kv (committedOffsetKey k)) \<and>
         (is_reply r \<and> commits_of k q \<noteq> [] \<longrightarrow>
            cells kv' (committedOffsetKey k) =
              Some (IntVal (fold max (commits_of k q) (committed kv (committedOffsetKey k)))))"
proof (cases q)
  case (Send key msg)
  with assms have "send_kv key msg kv = Some (r, kv')" by simp
  from send_kv_spec[OF this] have "cells kv' (committedOffsetKey k) = cells kv (committedOffsetKey k)"
    by (cases r) auto
  with Send show ?thesis by simp
next
  case (Poll offsets)
  with assms have "poll_kv offsets kv = (r, kv')" by simp
  then obtain res where "poll_keys_kv offsets Map.empty kv = (res, kv')"
    by (auto simp: poll_kv_def split: prod.splits)
  from poll_keys_kv_spec[OF this] Poll show ?thesis by simp
next
  case (ListCommittedOffsets keys)
  with assms have "list_committed_offsets_kv keys kv = (r, kv')" by simp
  then obtain res where "list_keys_kv keys Map.empty kv = (res, kv')"
    by (auto simp: list_committed_offsets_kv_def split: prod.splits)
  from list_keys_kv_spec[OF this] ListCommittedOffsets show ?thesis by simp
next
  case (CommitOffsets offsets)
  with assms obtain r1 where ck: "commit_keys_kv offsets kv = Some (r1, kv')"
    and r: "r = (case r1 of None \<Rightarrow> Inr commit_offsets_ok | Some e \<Rightarrow> Inl e)"
    by (auto simp: commit_offsets_kv_def split: option.splits)
  note sp = commit_keys_kv_spec[OF ck]
  have none: "commits_of k q = [] \<longleftrightarrow> k \<notin> fst ` set offsets"
    using CommitOffsets by (auto simp: filter_empty_conv)
  show ?thesis
  proof (intro conjI impI)
    assume "commits_of k q = []"
    with none have "\<forall>k' \<in> fst ` set offsets. committedOffsetKey k \<noteq> committedOffsetKey k'" by auto
    with sp show "cells kv' (committedOffsetKey k) = cells kv (committedOffsetKey k)" by blast
  next
    assume a: "is_reply r \<and> commits_of k q \<noteq> []"
    with r have "r1 = None" by (cases r1) auto
    moreover from a none have "k \<in> fst ` set offsets" by simp
    ultimately show "cells kv' (committedOffsetKey k) =
              Some (IntVal (fold max (commits_of k q) (committed kv (committedOffsetKey k))))"
      using sp CommitOffsets by auto
  qed
qed

lemma run_kv_committed:
  "run_kv qs kv = Some (rs, kv') \<Longrightarrow>
   (committed_in k qs = [] \<longrightarrow> cells kv' (committedOffsetKey k) = cells kv (committedOffsetKey k)) \<and>
   (list_all is_reply rs \<and> committed_in k qs \<noteq> [] \<longrightarrow>
      cells kv' (committedOffsetKey k) =
        Some (IntVal (fold max (committed_in k qs) (committed kv (committedOffsetKey k)))))"
proof (induction qs arbitrary: kv rs)
  case Nil
  then show ?case by (simp add: committed_in_def)
next
  case (Cons q qs)
  from Cons.prems obtain r kv1 rs1 where
    h: "handle_kv q kv = Some (r, kv1)" and t: "run_kv qs kv1 = Some (rs1, kv')" and rs: "rs = r # rs1"
    by (auto split: option.splits)
  note hq = handle_kv_committed[OF h, of k]
  note ih = Cons.IH[OF t]
  show ?case
  proof (intro conjI impI)
    assume "committed_in k (q # qs) = []"
    then have "commits_of k q = []" "committed_in k qs = []" by (simp_all add: committed_in_Cons)
    with hq ih show "cells kv' (committedOffsetKey k) = cells kv (committedOffsetKey k)" by simp
  next
    assume a: "list_all is_reply rs \<and> committed_in k (q # qs) \<noteq> []"
    with rs have ok: "is_reply r" "list_all is_reply rs1" by simp_all
    show "cells kv' (committedOffsetKey k) =
        Some (IntVal (fold max (committed_in k (q # qs)) (committed kv (committedOffsetKey k))))"
    proof (cases "commits_of k q = []")
      case True
      with hq have "committed kv1 (committedOffsetKey k) = committed kv (committedOffsetKey k)"
        by (simp add: committed_def)
      moreover from True a have "committed_in k qs \<noteq> []" by (simp add: committed_in_Cons)
      ultimately show ?thesis using ih ok True by (simp add: committed_in_Cons)
    next
      case False
      with hq ok have c1: "cells kv1 (committedOffsetKey k) =
          Some (IntVal (fold max (commits_of k q) (committed kv (committedOffsetKey k))))" by simp
      then have cm: "committed kv1 (committedOffsetKey k) =
          fold max (commits_of k q) (committed kv (committedOffsetKey k))" by (simp add: committed_def)
      show ?thesis
      proof (cases "committed_in k qs = []")
        case True
        with ih c1 show ?thesis by (simp add: committed_in_Cons)
      next
        case False
        with ih ok cm show ?thesis by (simp add: committed_in_Cons)
      qed
    qed
  qed
qed

lemma commit_keys_mem_spec:
  "(map_of ls k = None \<longrightarrow> map_of (commit_keys_mem offsets ls) k = None) \<and>
   (\<forall>lg. map_of ls k = Some lg \<longrightarrow>
      (\<exists>lg'. map_of (commit_keys_mem offsets ls) k = Some lg' \<and>
         CommittedOffset lg' =
           fold max (map snd (filter (\<lambda>p. fst p = k) offsets)) (CommittedOffset lg)))"
proof (induction offsets arbitrary: ls)
  case Nil
  show ?case by simp
next
  case (Cons p offsets)
  obtain key c where p: "p = (key, c)" by (cases p)
  define ls1 where "ls1 = (case map_of ls key of
      Some lg \<Rightarrow> AList.update key (lg\<lparr>CommittedOffset := max (CommittedOffset lg) c\<rparr>) ls
    | None \<Rightarrow> ls)"
  have step: "commit_keys_mem (p # offsets) ls = commit_keys_mem offsets ls1"
    by (simp add: p ls1_def)
  have n1: "map_of ls k = None \<Longrightarrow> map_of ls1 k = None"
    by (auto simp: ls1_def update_conv' split: option.splits)
  have s1: "map_of ls k = Some lg \<Longrightarrow>
      \<exists>lg1. map_of ls1 k = Some lg1 \<and>
        CommittedOffset lg1 = (if key = k then max (CommittedOffset lg) c else CommittedOffset lg)" for lg
    by (auto simp: ls1_def update_conv' split: option.splits)
  show ?case
  proof (intro conjI impI allI)
    assume "map_of ls k = None"
    with n1 Cons.IH[of ls1] show "map_of (commit_keys_mem (p # offsets) ls) k = None"
      unfolding step by blast
  next
    fix lg assume "map_of ls k = Some lg"
    from s1[OF this] obtain lg1 where l1: "map_of ls1 k = Some lg1"
      "CommittedOffset lg1 = (if key = k then max (CommittedOffset lg) c else CommittedOffset lg)"
      by blast
    with Cons.IH[of ls1] obtain lg' where
      "map_of (commit_keys_mem offsets ls1) k = Some lg'"
      "CommittedOffset lg' = fold max (map snd (filter (\<lambda>p. fst p = k) offsets)) (CommittedOffset lg1)"
      by blast
    with l1(2) show "\<exists>lg'. map_of (commit_keys_mem (p # offsets) ls) k = Some lg' \<and>
         CommittedOffset lg' =
           fold max (map snd (filter (\<lambda>p. fst p = k) (p # offsets))) (CommittedOffset lg)"
      unfolding step by (auto simp: p max.commute)
  qed
qed



lemma handle_mem_unknown:
  "map_of ls k = None \<Longrightarrow> \<not> sends_to k q \<Longrightarrow> handle_mem q ls = (r, ls') \<Longrightarrow> map_of ls' k = None"
proof (cases q)
  case (Send key msg)
  assume "map_of ls k = None" "\<not> sends_to k q" "handle_mem q ls = (r, ls')"
  with Send show ?thesis
    by (auto simp: send_mem_def Let_def update_conv' split: option.splits if_splits)
next
  case (Poll offsets)
  assume "map_of ls k = None" "handle_mem q ls = (r, ls')"
  with Poll show ?thesis by (simp add: poll_mem_def)
next
  case (ListCommittedOffsets keys)
  assume "map_of ls k = None" "handle_mem q ls = (r, ls')"
  with ListCommittedOffsets show ?thesis by (simp add: list_committed_offsets_mem_def)
next
  case (CommitOffsets offsets)
  assume "map_of ls k = None" "handle_mem q ls = (r, ls')"
  with CommitOffsets commit_keys_mem_spec[of ls k offsets] show ?thesis
    by (auto simp: commit_offsets_mem_def)
qed

lemma run_mem_unknown:
  "map_of ls k = None \<Longrightarrow> list_all (\<lambda>q. \<not> sends_to k q) qs \<Longrightarrow> run_mem qs ls = (rs, ls') \<Longrightarrow>
   map_of ls' k = None"
proof (induction qs arbitrary: ls rs ls')
  case Nil
  then show ?case by simp
next
  case (Cons q qs)
  obtain r ls1 where h: "handle_mem q ls = (r, ls1)" by (cases "handle_mem q ls")
  obtain rs1 ls2 where t: "run_mem qs ls1 = (rs1, ls2)" by (cases "run_mem qs ls1")
  from Cons.prems(3) h t have e: "ls' = ls2" by simp
  from Cons.prems(2) have nq: "\<not> sends_to k q" and nqs: "list_all (\<lambda>q. \<not> sends_to k q) qs"
    by simp_all
  from handle_mem_unknown[OF Cons.prems(1) nq h] have "map_of ls1 k = None" .
  from Cons.IH[OF this nqs t] e show ?case by simp
qed

lemma list_kv_absent:
  "cells kv (committedOffsetKey key) = None \<Longrightarrow>
   \<exists>offsets. fst (list_committed_offsets_kv keys kv) = Inr (list_committed_offsets_ok offsets) \<and>
     offsets key = None"
proof -
  assume a: "cells kv (committedOffsetKey key) = None"
  obtain res kv' where l: "list_keys_kv keys Map.empty kv = (res, kv')"
    by (cases "list_keys_kv keys Map.empty kv")
  from list_keys_kv_spec[OF l, of key] a have "res key = None" by simp
  with l show ?thesis by (simp add: list_committed_offsets_kv_def)
qed


lemma list_keys_mem_absent:
  "map_of ls k = None \<Longrightarrow> list_keys_mem ls keys offsets k = offsets k"
  by (induction keys arbitrary: offsets) (auto split: option.splits)

lemma list_mem_absent:
  "map_of ls key = None \<Longrightarrow>
   \<exists>offsets. fst (list_committed_offsets_mem keys ls) = Inr (list_committed_offsets_ok offsets) \<and>
     offsets key = None"
  by (simp add: list_committed_offsets_mem_def list_keys_mem_absent)






text \<open>
  Claim C7, as amended. In the distributed program a key whose committed-offset marker is
  absent and for which no request of the run commits an offset is left out of the reply
  of \<open>list_committed_offsets\<close>. In the single-node program a key is left out when it has
  no log and no request of the run sends to it. The claim as stated does not hold for
  the single-node program: a key that was sent to and never committed is reported, with
  the first offset of its log.
\<close>

theorem never_committed_key_omitted:
  "(cells kv (committedOffsetKey key) = None \<and> committed_in key qs = [] \<and>
    run_kv qs kv = Some (rs, kv') \<longrightarrow>
      (\<exists>offsets. fst (list_committed_offsets_kv keys kv') = Inr (list_committed_offsets_ok offsets) \<and>
         offsets key = None)) \<and>
   (map_of ls key = None \<and> list_all (\<lambda>q. \<not> sends_to key q) qs \<and> run_mem qs ls = (rs', ls') \<longrightarrow>
      (\<exists>offsets. fst (list_committed_offsets_mem keys ls') = Inr (list_committed_offsets_ok offsets) \<and>
         offsets key = None))"
proof (intro conjI impI)
  assume a: "cells kv (committedOffsetKey key) = None \<and> committed_in key qs = [] \<and>
    run_kv qs kv = Some (rs, kv')"
  then have "run_kv qs kv = Some (rs, kv')" by simp
  from run_kv_committed[OF this, of key] a have "cells kv' (committedOffsetKey key) = None" by simp
  then show "\<exists>offsets. fst (list_committed_offsets_kv keys kv') = Inr (list_committed_offsets_ok offsets) \<and>
         offsets key = None" by (rule list_kv_absent)
next
  assume a: "map_of ls key = None \<and> list_all (\<lambda>q. \<not> sends_to key q) qs \<and> run_mem qs ls = (rs', ls')"
  then have "map_of ls' key = None" using run_mem_unknown by blast
  then show "\<exists>offsets. fst (list_committed_offsets_mem keys ls') = Inr (list_committed_offsets_ok offsets) \<and>
         offsets key = None" by (rule list_mem_absent)
qed

theorem never_committed_key_omitted_witness:
  "map_option fst (run_kv [Send ''x'' 10, CommitOffsets [(''y'', 3)]] \<lparr>cells = Map.empty, pending = []\<rparr>) =
     Some [Inr (send_ok 0), Inr commit_offsets_ok] \<and>
   fst (list_committed_offsets_kv [''x'', ''y'']
     (snd (the (run_kv [Send ''x'' 10, CommitOffsets [(''y'', 3)]] \<lparr>cells = Map.empty, pending = []\<rparr>)))) =
     Inr (list_committed_offsets_ok [''y'' \<mapsto> 3]) \<and>
   fst (list_committed_offsets_mem [''x'', ''y'']
     (snd (run_mem [Send ''y'' 10, CommitOffsets [(''x'', 5)]] []))) =
     Inr (list_committed_offsets_ok [''y'' \<mapsto> 1000])"
  using never_committed_key_omitted[of "\<lparr>cells = Map.empty, pending = []\<rparr>" "''x''"
      "[Send ''x'' 10, CommitOffsets [(''y'', 3)]]"
      "fst (the (run_kv [Send ''x'' 10, CommitOffsets [(''y'', 3)]] \<lparr>cells = Map.empty, pending = []\<rparr>))"
      "snd (the (run_kv [Send ''x'' 10, CommitOffsets [(''y'', 3)]] \<lparr>cells = Map.empty, pending = []\<rparr>))"
      "[''x'', ''y'']" "[]"]
    never_committed_key_omitted[where ls = "[]" and key = "''x''"
      and qs = "[Send ''y'' 10, CommitOffsets [(''x'', 5)]]"
      and rs' = "fst (run_mem [Send ''y'' 10, CommitOffsets [(''x'', 5)]] [])"
      and ls' = "snd (run_mem [Send ''y'' 10, CommitOffsets [(''x'', 5)]] [])"
      and keys = "[''x'', ''y'']"]
  by (simp add: service_eval send_kv_def send_loop.simps commit_offsets_kv_def commit_loop.simps
      list_committed_offsets_kv_def list_committed_offsets_mem_def send_mem_def
      commit_offsets_mem_def committed_in_def)

theorem sent_key_listed_counterexample:
  "fst (run_mem [Send ''x'' 10, ListCommittedOffsets [''x'']] []) =
     [Inr (send_ok 1000), Inr (list_committed_offsets_ok [''x'' \<mapsto> 1000])] \<and>
   committed_in ''x'' [Send ''x'' 10, ListCommittedOffsets [''x'']] = []"
  by (simp add: send_mem_def list_committed_offsets_mem_def committed_in_def)




subsection \<open>Calls of commit in parallel\<close>














lemma run_commits_append:
  "run_commits (s @ t) calls kv =
     (case run_commits s calls kv of (calls', kv') \<Rightarrow> run_commits t calls' kv')"
  by (induction s arbitrary: calls kv) (auto split: prod.splits)



text \<open>
  The handler run step by step and by itself does what \<open>commit_offsets_kv\<close> does: the two
  embeddings of \<open>commit_offsets\<close> agree.
\<close>

lemma commit_alone_trans:
  assumes "commit_alone offsets r kv (Committing r') kv1" "commit_alone offsets r' kv1 at' kv'"
  shows "commit_alone offsets r kv at' kv'"
proof -
  from assms obtain n m where
    "run_commits (replicate n 0) [(offsets, Committing r)] kv = ([(offsets, Committing r')], kv1)"
    "run_commits (replicate m 0) [(offsets, Committing r')] kv1 = ([(offsets, at')], kv')"
    by (auto simp: commit_alone_def)
  then have "run_commits (replicate n 0 @ replicate m 0) [(offsets, Committing r)] kv = ([(offsets, at')], kv')"
    by (simp add: run_commits_append)
  then have "run_commits (replicate (n + m) 0) [(offsets, Committing r)] kv = ([(offsets, at')], kv')"
    by (simp add: replicate_add)
  then show ?thesis unfolding commit_alone_def by blast
qed

lemma commit_alone_read_failed:
  "ReadInt (committedOffsetKey key) kv = ((v, Some e), kv1) \<Longrightarrow> e \<noteq> RPCError KeyDoesNotExist \<Longrightarrow>
   commit_alone offsets ((key, c) # rest) kv (CommitFailed e) kv1"
  unfolding commit_alone_def by (rule exI[of _ 1]) simp

lemma commit_alone_swapped:
  assumes "ReadInt (committedOffsetKey key) kv = ((v, err), kv1)"
    and "err = None \<and> old = v \<or> err = Some (RPCError KeyDoesNotExist) \<and> old = 0"
    and "CompareAndSwap (committedOffsetKey key) (IntVal old) (IntVal (max old c)) True kv1 = (None, kv2)"
  shows "commit_alone offsets ((key, c) # rest) kv (Committing rest) kv2"
  unfolding commit_alone_def using assms by (intro exI[of _ 2]) (auto simp: numeral_2_eq_2)

lemma commit_alone_retry:
  assumes "ReadInt (committedOffsetKey key) kv = ((v, err), kv1)"
    and "err = None \<and> old = v \<or> err = Some (RPCError KeyDoesNotExist) \<and> old = 0"
    and "CompareAndSwap (committedOffsetKey key) (IntVal old) (IntVal (max old c)) True kv1 = (Some e, kv2)"
  shows "commit_alone offsets ((key, c) # rest) kv (Committing ((key, c) # rest)) kv2"
  unfolding commit_alone_def using assms by (intro exI[of _ 2]) (auto simp: numeral_2_eq_2)

lemma commit_loop_alone:
  assumes "commit_loop ckey c kv = Some y"
  shows "\<forall>key. ckey = committedOffsetKey key \<longrightarrow>
           commit_alone offsets ((key, c) # rest) kv
             (case fst y of Some e \<Rightarrow> CommitFailed e | None \<Rightarrow> Committing rest) (snd y)"
proof (rule commit_loop.raw_induct[where P = "\<lambda>ckey c kv y. \<forall>key. ckey = committedOffsetKey key \<longrightarrow>
           commit_alone offsets ((key, c) # rest) kv
             (case fst y of Some e \<Rightarrow> CommitFailed e | None \<Rightarrow> Committing rest) (snd y)",
      OF _ assms], goal_cases)
  case (1 commit_loop ckey c kv y)
  show ?case
  proof (intro allI impI)
    fix key assume k: "ckey = committedOffsetKey key"
    obtain v err kv1 where rd: "ReadInt ckey kv = ((v, err), kv1)"
      by (cases "ReadInt ckey kv") auto
    show "commit_alone offsets ((key, c) # rest) kv
             (case fst y of Some e \<Rightarrow> CommitFailed e | None \<Rightarrow> Committing rest) (snd y)"
    proof (cases "\<exists>e. err = Some e \<and> e \<noteq> RPCError KeyDoesNotExist")
      case True
      then obtain e where e: "err = Some e" "e \<noteq> RPCError KeyDoesNotExist" by blast
      with rd "1"(2) have "y = (Some e, kv1)" by simp
      with commit_alone_read_failed[of key kv v e kv1 offsets c rest] rd e k show ?thesis by simp
    next
      case False
      define old where "old = (case err of None \<Rightarrow> v | Some e \<Rightarrow> 0)"
      from False have oe: "err = None \<and> old = v \<or> err = Some (RPCError KeyDoesNotExist) \<and> old = 0"
        by (cases err) (auto simp: old_def)
      obtain cerr kv2 where cas:
        "CompareAndSwap ckey (IntVal old) (IntVal (max old c)) True kv1 = (cerr, kv2)"
        by (cases "CompareAndSwap ckey (IntVal old) (IntVal (max old c)) True kv1")
      from False rd cas "1"(2)
      have body: "(case cerr of None \<Rightarrow> Some (None, kv2) | Some e \<Rightarrow> commit_loop ckey c kv2) = Some y"
        unfolding old_def by (cases err; cases cerr) auto
      show ?thesis
      proof (cases cerr)
        case None
        with body have "y = (None, kv2)" by simp
        with commit_alone_swapped[of key kv v err kv1 old c kv2 offsets rest] rd oe cas None k
        show ?thesis by simp
      next
        case (Some e)
        with body have "commit_loop ckey c kv2 = Some y" by simp
        from "1"(1)[OF this] k
        have "commit_alone offsets ((key, c) # rest) kv2
                (case fst y of Some e \<Rightarrow> CommitFailed e | None \<Rightarrow> Committing rest) (snd y)"
          by blast
        with commit_alone_retry[of key kv v err kv1 old c e kv2 offsets rest] rd oe cas Some k
        show ?thesis by (blast intro: commit_alone_trans)
      qed
    qed
  qed
qed

lemma commit_keys_kv_alone:
  "commit_keys_kv r kv = Some (err, kv') \<Longrightarrow>
   commit_alone offsets r kv (case err of Some e \<Rightarrow> CommitFailed e | None \<Rightarrow> CommitReplied) kv'"
proof (induction r arbitrary: kv)
  case Nil
  then have "err = None" "kv' = kv" by simp_all
  then show ?case unfolding commit_alone_def by (intro exI[of _ 1]) simp
next
  case (Cons p rest)
  obtain key c where p: "p = (key, c)" by (cases p)
  from Cons.prems p obtain e1 kv1 where l: "commit_loop (committedOffsetKey key) c kv = Some (e1, kv1)"
    by (auto split: option.splits)
  from commit_loop_alone[OF l, of offsets rest]
  have al: "commit_alone offsets ((key, c) # rest) kv
              (case e1 of Some e \<Rightarrow> CommitFailed e | None \<Rightarrow> Committing rest) kv1"
    by simp
  show ?case
  proof (cases e1)
    case (Some e)
    with l Cons.prems p have "err = Some e" "kv' = kv1" by simp_all
    with al Some p show ?thesis by simp
  next
    case None
    with l Cons.prems p have "commit_keys_kv rest kv1 = Some (err, kv')" by simp
    from Cons.IH[OF this] al None p show ?thesis by (auto intro: commit_alone_trans)
  qed
qed

lemma commit_offsets_kv_alone:
  assumes "commit_offsets_kv offsets kv = Some (r, kv')"
  shows "\<exists>at'. commit_alone offsets offsets kv at' kv' \<and> commit_outcome at' = Some r"
proof -
  from assms obtain err where k: "commit_keys_kv offsets kv = Some (err, kv')"
    by (auto simp: commit_offsets_kv_def split: option.splits)
  from commit_keys_kv_alone[OF k, of offsets] k assms show ?thesis
    by (cases err) (auto simp: commit_offsets_kv_def)
qed









lemma pending_served_length: "length (pending (served kv)) \<le> length (pending kv)"
  by (simp add: served_def)


















text \<open>
  Claim C6, as amended. From the empty state the single-node program runs the scenario
  as the claim states it: offsets \<open>1000\<close> and \<open>1001\<close>, both entries polled from
  \<open>1000\<close>, the commit of \<open>1000\<close> acknowledged and listed. The distributed program
  numbers the offsets of a fresh key from \<open>0\<close>, so the same scenario reads there:
  offsets \<open>0\<close> and \<open>1\<close>, both entries polled from \<open>0\<close>, the commit of \<open>0\<close>
  acknowledged and listed.
\<close>

theorem end_to_end_scenario:
  "fst (run_mem [Send ''x'' 10, Send ''x'' 20, Poll [(''x'', 1000)], CommitOffsets [(''x'', 1000)],
                 ListCommittedOffsets [''x'']] []) =
     [Inr (send_ok 1000), Inr (send_ok 1001),
      Inr (poll_ok [''x'' \<mapsto> [[1000, 10], [1001, 20]]]),
      Inr commit_offsets_ok, Inr (list_committed_offsets_ok [''x'' \<mapsto> 1000])] \<and>
   map_option fst
     (run_kv [Send ''x'' 10, Send ''x'' 20, Poll [(''x'', 0)], CommitOffsets [(''x'', 0)],
              ListCommittedOffsets [''x'']] \<lparr>cells = Map.empty, pending = []\<rparr>) =
     Some [Inr (send_ok 0), Inr (send_ok 1),
           Inr (poll_ok [''x'' \<mapsto> [[0, 10], [1, 20]]]),
           Inr commit_offsets_ok, Inr (list_committed_offsets_ok [''x'' \<mapsto> 0])]"
  by (simp add: service_eval send_mem_def poll_mem_def commit_offsets_mem_def
      list_committed_offsets_mem_def send_kv_def send_loop.simps poll_kv_def poll_scan.simps
      commit_offsets_kv_def commit_loop.simps list_committed_offsets_kv_def)

theorem end_to_end_distributed_counterexample:
  "map_option fst
     (run_kv [Send ''x'' 10, Send ''x'' 20, Poll [(''x'', 1000)], CommitOffsets [(''x'', 1000)],
              ListCommittedOffsets [''x'']] \<lparr>cells = Map.empty, pending = []\<rparr>) =
     Some [Inr (send_ok 0), Inr (send_ok 1), Inr (poll_ok [''x'' \<mapsto> []]),
           Inr commit_offsets_ok, Inr (list_committed_offsets_ok [''x'' \<mapsto> 1000])]"
  by (simp add: service_eval send_kv_def send_loop.simps poll_kv_def poll_scan.simps
      commit_offsets_kv_def commit_loop.simps list_committed_offsets_kv_def)

subsection \<open>The states a run reaches\<close>

text \<open>
  The handlers keep these properties, and the empty states have them: every state a run
  of requests reaches from the empty state has them.
\<close>

lemma commit_keys_mem_wf: "wf_logs ls \<Longrightarrow> wf_logs (commit_keys_mem offsets ls)"
proof (induction offsets arbitrary: ls)
  case Nil
  then show ?case by simp
next
  case (Cons p offsets)
  obtain key c where p: "p = (key, c)" by (cases p)
  show ?case
  proof (cases "map_of ls key")
    case None
    with Cons p show ?thesis by simp
  next
    case (Some lg)
    with Cons.prems have "wf_log lg" by (rule wf_logs_lookup)
    then have "wf_log (lg\<lparr>CommittedOffset := max (CommittedOffset lg) c\<rparr>)" by (simp add: wf_log_def)
    with Cons.prems have "wf_logs (AList.update key (lg\<lparr>CommittedOffset := max (CommittedOffset lg) c\<rparr>) ls)"
      unfolding wf_logs_def by (intro list_all_update) simp_all
    from Cons.IH[OF this] Some p show ?thesis by simp
  qed
qed

lemma handle_mem_wf: "wf_logs ls \<Longrightarrow> wf_logs (snd (handle_mem q ls))"
proof (cases q)
  case (Send key msg)
  assume "wf_logs ls"
  from send_mem_wf[OF this, of key msg] Send show ?thesis by auto
next
  case (Poll offsets)
  assume "wf_logs ls"
  with Poll show ?thesis by (simp add: poll_mem_def)
next
  case (CommitOffsets offsets)
  assume "wf_logs ls"
  with CommitOffsets show ?thesis by (simp add: commit_offsets_mem_def commit_keys_mem_wf)
next
  case (ListCommittedOffsets keys)
  assume "wf_logs ls"
  with ListCommittedOffsets show ?thesis by (simp add: list_committed_offsets_mem_def)
qed

lemma run_mem_wf: "wf_logs ls \<Longrightarrow> wf_logs (snd (run_mem qs ls))"
proof (induction qs arbitrary: ls)
  case Nil
  then show ?case by simp
next
  case (Cons q qs)
  obtain r ls1 where h: "handle_mem q ls = (r, ls1)" by (cases "handle_mem q ls")
  obtain rs1 ls2 where t: "run_mem qs ls1 = (rs1, ls2)" by (cases "run_mem qs ls1")
  from handle_mem_wf[OF Cons.prems, of q] h have "wf_logs ls1" by simp
  from Cons.IH[OF this] h t show ?case by simp
qed

lemma wf_logs_empty: "wf_logs []"
  by (simp add: wf_logs_def)

lemma commit_keys_kv_ints:
  "commit_keys_kv offsets kv = Some (r, kv') \<Longrightarrow> all_ints kv \<Longrightarrow> all_ints kv'"
proof (induction offsets arbitrary: kv)
  case Nil
  then show ?case by simp
next
  case (Cons p offsets)
  obtain key c where p: "p = (key, c)" by (cases p)
  from Cons.prems(1) p obtain r1 kv1 where
    cl: "commit_loop (committedOffsetKey key) c kv = Some (r1, kv1)"
    by (auto split: option.splits)
  from commit_loop_spec[OF cl] Cons.prems(2) have i1: "all_ints kv1"
    by (cases r1) (auto simp: commit_loop_post_def all_ints_def)
  show ?case
  proof (cases r1)
    case None
    with cl Cons.prems(1) p have "commit_keys_kv offsets kv1 = Some (r, kv')" by simp
    from Cons.IH[OF this i1] show ?thesis .
  next
    case (Some e)
    with cl Cons.prems(1) p i1 show ?thesis by simp
  qed
qed

lemma handle_kv_ints: "handle_kv q kv = Some (r, kv') \<Longrightarrow> all_ints kv \<Longrightarrow> all_ints kv'"
proof (cases q)
  case (Send key msg)
  assume "handle_kv q kv = Some (r, kv')" "all_ints kv"
  with Send send_kv_spec[of key msg kv r kv'] show ?thesis
    by (cases r) (auto simp: all_ints_def split: if_splits)
next
  case (Poll offsets)
  assume a: "handle_kv q kv = Some (r, kv')" "all_ints kv"
  with Poll obtain res where "poll_keys_kv offsets Map.empty kv = (res, kv')"
    by (auto simp: poll_kv_def split: prod.splits)
  from poll_keys_kv_spec[OF this] a(2) show ?thesis by (simp add: all_ints_def)
next
  case (CommitOffsets offsets)
  assume a: "handle_kv q kv = Some (r, kv')" "all_ints kv"
  with CommitOffsets obtain r1 where "commit_keys_kv offsets kv = Some (r1, kv')"
    by (auto simp: commit_offsets_kv_def split: option.splits)
  from commit_keys_kv_ints[OF this a(2)] show ?thesis .
next
  case (ListCommittedOffsets keys)
  assume a: "handle_kv q kv = Some (r, kv')" "all_ints kv"
  with ListCommittedOffsets obtain res where "list_keys_kv keys Map.empty kv = (res, kv')"
    by (auto simp: list_committed_offsets_kv_def split: prod.splits)
  from list_keys_kv_spec[OF this] a(2) show ?thesis by (simp add: all_ints_def)
qed

lemma run_kv_ints: "run_kv qs kv = Some (rs, kv') \<Longrightarrow> all_ints kv \<Longrightarrow> all_ints kv'"
proof (induction qs arbitrary: kv rs)
  case Nil
  then show ?case by simp
next
  case (Cons q qs)
  from Cons.prems(1) obtain r kv1 rs1 where
    h: "handle_kv q kv = Some (r, kv1)" and t: "run_kv qs kv1 = Some (rs1, kv')"
    by (auto split: option.splits)
  from Cons.IH[OF t handle_kv_ints[OF h Cons.prems(2)]] show ?case .
qed

lemma all_ints_empty: "all_ints \<lparr>cells = Map.empty, pending = fs\<rparr>"
  by (simp add: all_ints_def)

lemma handle_kv_returns: "all_ints kv \<Longrightarrow> handle_kv q kv \<noteq> None"
proof (cases q)
  case (Send key msg)
  assume "all_ints kv"
  then have "cells kv (offsetKey key) \<noteq> Some OtherVal" by (simp add: all_ints_def)
  from send_kv_returns[OF this, of msg] Send show ?thesis by auto
next
  case (Poll offsets)
  then show ?thesis by simp
next
  case (ListCommittedOffsets keys)
  then show ?thesis by simp
next
  case (CommitOffsets offsets)
  assume ai: "all_ints kv"
  have "commit_keys_kv offsets kv \<noteq> None" using ai
  proof (induction offsets arbitrary: kv)
    case Nil
    then show ?case by simp
  next
    case (Cons p offsets)
    obtain key c where p: "p = (key, c)" by (cases p)
    from Cons.prems have "cells kv (committedOffsetKey key) \<noteq> Some OtherVal" by (simp add: all_ints_def)
    from commit_loop_returns[OF this, of c] obtain r1 kv1 where
      cl: "commit_loop (committedOffsetKey key) c kv = Some (r1, kv1)" by auto
    from commit_loop_spec[OF cl] Cons.prems have "all_ints kv1"
      by (cases r1) (auto simp: commit_loop_post_def all_ints_def)
    from Cons.IH[OF this] cl p show ?case by (cases r1) auto
  qed
  with CommitOffsets show ?thesis by (auto simp: commit_offsets_kv_def split: option.splits)
qed

lemma run_kv_returns: "all_ints kv \<Longrightarrow> run_kv qs kv \<noteq> None"
proof (induction qs arbitrary: kv)
  case Nil
  then show ?case by simp
next
  case (Cons q qs)
  from handle_kv_returns[OF Cons.prems, of q] obtain r kv1 where h: "handle_kv q kv = Some (r, kv1)"
    by auto
  from Cons.IH[OF handle_kv_ints[OF h Cons.prems]] h show ?case by auto
qed

end
